theory Spec2Isabelle
  imports Main "HOL-Library.AList" "HOL-Library.Char_ord" "HOL-Library.List_Lexorder"
begin

section \<open>Data model\<close>

text \<open>
  Plan ids are JavaScript strings. Timestamps are the values of \<open>new Date().toISOString()\<close>;
  they are modelled by the reading of a clock (a natural number) that advances with every
  reading, so that two readings are told apart.
\<close>

type_synonym timestamp = nat

text \<open>\<open>types/status.ts\<close>\<close>

datatype ExecutionStatus = pending | running | completed | failed | skipped

record PlanExecutionStatus =
  pes_planId :: string
  executionStatus :: ExecutionStatus
  lastExecutedAt :: "timestamp option"
  executionDurationMs :: "nat option"
  errorMessage :: "string option"
  exitCode :: "int option"

record StackExecutionStatus =
  ses_stackName :: string
  planStatuses :: "string \<rightharpoonup> PlanExecutionStatus"
  lastRunAt :: "timestamp option"
  isRunning :: bool

text \<open>\<open>types/plan.ts\<close> (the fields the dependency graph reads) and \<open>types/stack.ts\<close>\<close>

record Plan =
  plan_planId :: string
  references :: "string list"

record StackPlan =
  sp_planId :: string
  sp_dependsOnPlanIds :: "string list"
  sp_executionStatus :: ExecutionStatus
  sp_lastExecutedAt :: "timestamp option"
  sp_executionDurationMs :: "nat option"

record Stack =
  stackName :: string
  plans :: "StackPlan list"
  rootPlanIds :: "string list"
  createdAt :: timestamp
  updatedAt :: timestamp

text \<open>
  The durable state: the directory of stack files, the directory of status files (a file
  that is missing or does not parse is \<open>None\<close>), the clock, and the log of the plans
  handed to \<open>executePlan\<close>, oldest first.
\<close>

record World =
  stackFiles :: "string \<rightharpoonup> Stack"
  statusFiles :: "string \<rightharpoonup> StackExecutionStatus"
  clock :: nat
  executed :: "string list"

definition now :: "World \<Rightarrow> timestamp \<times> World" where
  "now w = (clock w, w\<lparr>clock := Suc (clock w)\<rparr>)"

section \<open>Status store (\<open>storage/status-store.ts\<close>)\<close>

definition pendingStatus :: "string \<Rightarrow> PlanExecutionStatus" where
  "pendingStatus planId =
     \<lparr>pes_planId = planId, executionStatus = pending, lastExecutedAt = None,
      executionDurationMs = None, errorMessage = None, exitCode = None\<rparr>"

text \<open>\<open>Object.fromEntries\<close> over the plan ids: a later entry of the same key overwrites.\<close>

definition fromEntries :: "(string \<times> 'v) list \<Rightarrow> (string \<rightharpoonup> 'v)" where
  "fromEntries es = map_of (rev es)"

definition createDefaultStatus :: "string \<Rightarrow> string list \<Rightarrow> StackExecutionStatus" where
  "createDefaultStatus name planIds =
     \<lparr>ses_stackName = name,
      planStatuses = fromEntries (map (\<lambda>planId. (planId, pendingStatus planId)) planIds),
      lastRunAt = None,
      isRunning = False\<rparr>"

text \<open>
  \<open>planStatuses\<close> is a plain JavaScript object, read and written as
  \<open>status.planStatuses[planId]\<close>; the map holds its own properties. A read of a key that is
  not an own property finds the member of \<open>Object.prototype\<close> of that name when there is
  one: each of them is truthy, and none has an \<open>executionStatus\<close>. A write creates or
  replaces an own property, except for the key \<open>__proto__\<close> when it is not an own property:
  then the setter inherited from \<open>Object.prototype\<close> runs, the object gets no own property
  and \<open>JSON.stringify\<close> writes nothing for the key. (\<open>Object.fromEntries\<close> and
  \<open>JSON.parse\<close> define own properties, for \<open>__proto__\<close> too.)
\<close>

definition objectPrototypeKeys :: "string list" where
  "objectPrototypeKeys =
     [''constructor'', ''__defineGetter__'', ''__defineSetter__'', ''hasOwnProperty'',
      ''__lookupGetter__'', ''__lookupSetter__'', ''isPrototypeOf'', ''propertyIsEnumerable'',
      ''toString'', ''valueOf'', ''__proto__'', ''toLocaleString'']"

definition truthyMember :: "(string \<rightharpoonup> 'v) \<Rightarrow> string \<Rightarrow> bool" where
  "truthyMember obj key \<longleftrightarrow> obj key \<noteq> None \<or> key \<in> set objectPrototypeKeys"

definition assignMember :: "(string \<rightharpoonup> 'v) \<Rightarrow> string \<Rightarrow> 'v \<Rightarrow> (string \<rightharpoonup> 'v)" where
  "assignMember obj key v = (if key = ''__proto__'' \<and> obj key = None then obj else obj(key \<mapsto> v))"

text \<open>The \<open>forEach\<close> of \<open>loadStackStatus\<close>: a plan id for which
  \<open>status.planStatuses[planId]\<close> is falsy gets a pending entry.\<close>

fun backfill :: "string list \<Rightarrow> (string \<rightharpoonup> PlanExecutionStatus) \<Rightarrow> (string \<rightharpoonup> PlanExecutionStatus)" where
  "backfill [] m = m"
| "backfill (planId # rest) m =
     backfill rest (if \<not> truthyMember m planId then assignMember m planId (pendingStatus planId) else m)"

definition loadStackStatus :: "string \<Rightarrow> string list \<Rightarrow> World \<Rightarrow> StackExecutionStatus" where
  "loadStackStatus name planIds w =
     (case statusFiles w name of
        Some status \<Rightarrow> status\<lparr>planStatuses := backfill planIds (planStatuses status)\<rparr>
      | None \<Rightarrow> createDefaultStatus name planIds)"

definition saveStackStatus :: "StackExecutionStatus \<Rightarrow> World \<Rightarrow> World" where
  "saveStackStatus status w = w\<lparr>statusFiles := (statusFiles w)(ses_stackName status \<mapsto> status)\<rparr>"

text \<open>
  \<open>updatePlanStatus\<close>: the three optional arguments are \<open>None\<close> when omitted or null
  (\<open>?? null\<close>). The clock is read twice, for \<open>lastExecutedAt\<close> and for \<open>lastRunAt\<close>.
\<close>

definition updatePlanStatus ::
  "string \<Rightarrow> string list \<Rightarrow> string \<Rightarrow> ExecutionStatus \<Rightarrow> string option \<Rightarrow> int option \<Rightarrow> nat option
     \<Rightarrow> World \<Rightarrow> World" where
  "updatePlanStatus name planIds planId st err code dur w =
     (let status = loadStackStatus name planIds w;
          (t1, w1) = now w;
          planStatus = \<lparr>pes_planId = planId, executionStatus = st, lastExecutedAt = Some t1,
                        executionDurationMs = dur, errorMessage = err, exitCode = code\<rparr>;
          status1 = status\<lparr>planStatuses := assignMember (planStatuses status) planId planStatus\<rparr>;
          (t2, w2) = now w1;
          status2 = status1\<lparr>lastRunAt := Some t2\<rparr>
      in saveStackStatus status2 w2)"

definition setStackRunning :: "string \<Rightarrow> string list \<Rightarrow> bool \<Rightarrow> World \<Rightarrow> World" where
  "setStackRunning name planIds flag w =
     (let status = loadStackStatus name planIds w;
          status1 = status\<lparr>isRunning := flag\<rparr>
      in if flag
         then (let (t, w1) = now w in saveStackStatus (status1\<lparr>lastRunAt := Some t\<rparr>) w1)
         else saveStackStatus status1 w)"

definition resetStackStatus :: "string \<Rightarrow> string list \<Rightarrow> World \<Rightarrow> World" where
  "resetStackStatus name planIds w = saveStackStatus (createDefaultStatus name planIds) w"

section \<open>Array helpers\<close>

text \<open>\<open>Array.prototype.indexOf\<close> (the first index, or \<open>-1\<close>) and \<open>slice(start)\<close>, where a
  negative start counts from the end.\<close>

fun indexOf :: "'a list \<Rightarrow> 'a \<Rightarrow> int" where
  "indexOf [] x = -1"
| "indexOf (y # ys) x =
     (if y = x then 0 else (let i = indexOf ys x in if i < 0 then -1 else i + 1))"

definition slice :: "'a list \<Rightarrow> int \<Rightarrow> 'a list" where
  "slice xs start =
     (let n = int (length xs);
          k = (if start < 0 then max (n + start) 0 else min start n)
      in drop (nat k) xs)"

section \<open>Dependency graph (\<open>core/dependency-graph.ts\<close>)\<close>

text \<open>
  A \<open>Map<string, DependencyNode>\<close> is an association list in insertion order:
  \<open>graph.set\<close> is \<open>AList.update\<close> (a new key goes to the end, an existing key keeps its
  place), \<open>graph.get\<close> is \<open>map_of\<close>, \<open>graph.keys()\<close> is \<open>map fst\<close>. A node object that is
  mutated through the map is written back under its key.
\<close>

record DependencyNode =
  planId :: string
  dependsOnPlanIds :: "string list"
  dependentPlanIds :: "string list"

type_synonym Graph = "(string \<times> DependencyNode) list"

record TopologicalSortResult =
  sortedPlanIds :: "string list"
  hasCycle :: bool
  cycleNodes :: "string list option"

text \<open>\<open>depNode.dependentPlanIds.push(planId)\<close> when \<open>graph.get(depId)\<close> is defined.\<close>

definition addDependent :: "string \<Rightarrow> string \<Rightarrow> Graph \<Rightarrow> Graph" where
  "addDependent pid depId graph =
     (case map_of graph depId of
        Some depNode \<Rightarrow>
          AList.update depId (depNode\<lparr>dependentPlanIds := dependentPlanIds depNode @ [pid]\<rparr>) graph
      | None \<Rightarrow> graph)"




subsection \<open>Cycle detection\<close>

text \<open>
  \<open>dfs\<close> is the closure of \<open>detectCycle\<close>; the two variables it mutates, \<open>visited\<close> and
  \<open>cycleNodes\<close> (here \<open>cyc\<close>), are passed in and returned. \<open>dfs_deps\<close> is its \<open>for\<close> loop over the
  dependencies that are left. (The set \<open>recursionStack\<close> is written and never read.)
\<close>

function dfs :: "Graph \<Rightarrow> string \<Rightarrow> string list \<Rightarrow> string set \<times> string list \<Rightarrow> bool \<times> string set \<times> string list"
  and dfs_deps :: "Graph \<Rightarrow> string list \<Rightarrow> string list \<Rightarrow> string set \<times> string list \<Rightarrow> bool \<times> string set \<times> string list"
where
  "dfs graph nodeId path (visited, cyc) =
     (case map_of graph nodeId of
        None \<Rightarrow> (False, insert nodeId visited, cyc)
      | Some node \<Rightarrow> dfs_deps graph path (dependsOnPlanIds node) (insert nodeId visited, cyc))"
| "dfs_deps graph path [] st = (False, st)"
| "dfs_deps graph path (depId # rest) (visited, cyc) =
     (if depId \<notin> visited then
        (case dfs graph depId (path @ [depId]) (visited, cyc) of
           (True, st') \<Rightarrow> (True, st')
         | (False, st') \<Rightarrow> dfs_deps graph path rest st')
      else if depId \<in> set path then
        (True, visited, cyc @ slice path (indexOf path depId) @ [depId])
      else dfs_deps graph path rest (visited, cyc))"
  by pat_completeness auto


definition allDeps :: "Graph \<Rightarrow> string set" where
  "allDeps graph = (\<Union>node \<in> snd ` set graph. set (dependsOnPlanIds node))"

definition dfs_measure ::
  "Graph \<times> string \<times> string list \<times> string set \<times> string list
   + Graph \<times> string list \<times> string list \<times> string set \<times> string list \<Rightarrow> nat \<times> nat" where
  "dfs_measure a =
     (case a of
        Inl (graph, nodeId, path, visited, cyc) \<Rightarrow>
          (2 * card ((allDeps graph \<union> {nodeId}) - visited) + (if nodeId \<in> visited then 2 else 0), 0)
      | Inr (graph, path, deps, visited, cyc) \<Rightarrow>
          (2 * card ((allDeps graph \<union> set deps) - visited) + 1, length deps))"

lemma finite_allDeps: "finite (allDeps graph)"
  by (simp add: allDeps_def)

lemma deps_in_allDeps: "map_of graph n = Some node \<Longrightarrow> set (dependsOnPlanIds node) \<subseteq> allDeps graph"
  by (force simp: allDeps_def dest: map_of_SomeD)

lemma dfs_visited_mono_dom:
  "dfs_dfs_deps_dom (Inl (graph, nodeId, path, st)) \<Longrightarrow>
     fst st \<subseteq> fst (snd (dfs graph nodeId path st))"
  "dfs_dfs_deps_dom (Inr (graph, path, deps, st)) \<Longrightarrow>
     fst st \<subseteq> fst (snd (dfs_deps graph path deps st))"
proof (induct graph nodeId path st and graph path deps st rule: dfs_dfs_deps.pinduct)
  case (1 graph nodeId path visited cyc)
  then show ?case
    by (auto simp: dfs.psimps split: option.splits)
next
  case (2 graph path st)
  then show ?case by (simp add: dfs_deps.psimps)
next
  case (3 graph path depId rest visited cyc)
  show ?case
  proof (cases "depId \<in> visited")
    case True
    with 3 show ?thesis by (auto simp: dfs_deps.psimps)
  next
    case False
    obtain b st' where r: "dfs graph depId (path @ [depId]) (visited, cyc) = (b, st')"
      by (cases "dfs graph depId (path @ [depId]) (visited, cyc)") auto
    from 3(2) [OF False] r have m1: "visited \<subseteq> fst st'" by simp
    show ?thesis
    proof (cases b)
      case True
      with False r m1 3(1) show ?thesis by (simp add: dfs_deps.psimps)
    next
      case bf: False
      then have "b = False" by simp
      from 3(3) [OF False r [symmetric] this] have "fst st' \<subseteq> fst (snd (dfs_deps graph path rest st'))" .
      with False r m1 bf 3(1) show ?thesis by (auto simp add: dfs_deps.psimps)
    qed
  qed
qed

termination dfs
proof (relation "inv_image (less_than <*lex*> less_than) dfs_measure", goal_cases)
  case 1
  show ?case by (intro wf_inv_image wf_lex_prod wf_less_than)
next
  case (2 graph nodeId path visited cyc node)
  have sub: "set (dependsOnPlanIds node) \<subseteq> allDeps graph"
    using 2 by (rule deps_in_allDeps)
  then have eq: "allDeps graph \<union> set (dependsOnPlanIds node) = allDeps graph" by auto
  show ?case
  proof (cases "nodeId \<in> visited")
    case True
    then have "(allDeps graph \<union> {nodeId}) - visited = allDeps graph - insert nodeId visited" by auto
    with True show ?thesis by (simp add: dfs_measure_def eq insert_absorb)
  next
    case False
    have "allDeps graph - insert nodeId visited \<subset> (allDeps graph \<union> {nodeId}) - visited"
      using False by auto
    then have "card (allDeps graph - insert nodeId visited) < card ((allDeps graph \<union> {nodeId}) - visited)"
      by (intro psubset_card_mono) (auto simp: finite_allDeps)
    with False show ?thesis by (simp add: dfs_measure_def eq)
  qed
next
  case (3 graph path depId rest visited cyc)
  have "card ((allDeps graph \<union> {depId}) - visited) \<le> card ((allDeps graph \<union> set (depId # rest)) - visited)"
    by (intro card_mono) (auto simp: finite_allDeps)
  with 3 show ?case by (simp add: dfs_measure_def)
next
  case (4 graph path depId rest visited cyc x y)
  have "visited \<subseteq> fst y"
    using 4 dfs_visited_mono_dom(1) [of graph depId "path @ [depId]" "(visited, cyc)"]
    by (metis fst_conv snd_conv)
  then have "card ((allDeps graph \<union> set rest) - fst y) \<le> card ((allDeps graph \<union> set (depId # rest)) - visited)"
    by (intro card_mono) (auto simp: finite_allDeps)
  then show ?case by (cases y) (auto simp add: dfs_measure_def)
next
  case (5 graph path depId rest visited cyc)
  have "card ((allDeps graph \<union> set rest) - visited) \<le> card ((allDeps graph \<union> set (depId # rest)) - visited)"
    by (intro card_mono) (auto simp: finite_allDeps)
  then show ?case by (auto simp add: dfs_measure_def)
qed

text \<open>The loop of \<open>detectCycle\<close> over \<open>graph.keys()\<close>.\<close>

fun detect_keys :: "Graph \<Rightarrow> string list \<Rightarrow> string set \<times> string list \<Rightarrow> bool \<times> string set \<times> string list" where
  "detect_keys graph [] st = (False, st)"
| "detect_keys graph (nodeId # rest) (visited, cyc) =
     (if nodeId \<notin> visited then
        (case dfs graph nodeId [nodeId] (visited, cyc) of
           (True, st') \<Rightarrow> (True, st')
         | (False, st') \<Rightarrow> detect_keys graph rest st')
      else detect_keys graph rest (visited, cyc))"

definition detectCycle :: "Graph \<Rightarrow> bool \<times> string list" where
  "detectCycle graph =
     (case detect_keys graph (map fst graph) ({}, []) of
        (True, visited, cyc) \<Rightarrow> (True, cyc)
      | (False, st) \<Rightarrow> (False, []))"

subsection \<open>Topological sort\<close>

text \<open>
  \<open>inDegree\<close> is a \<open>Map<string, number>\<close>, again an association list. \<open>relax\<close> is the body
  of the \<open>forEach\<close> over the dependents of the node taken from the queue.
\<close>

definition degreeOf :: "(string \<times> int) list \<Rightarrow> string \<Rightarrow> int" where
  "degreeOf inDegree k = (case map_of inDegree k of Some d \<Rightarrow> d | None \<Rightarrow> 0)"

definition relax :: "string \<Rightarrow> (string \<times> int) list \<times> string list \<Rightarrow> (string \<times> int) list \<times> string list" where
  "relax depId = (\<lambda>(inDegree, queue).
     let currentDegree = degreeOf inDegree depId;
         newDegree = currentDegree - 1;
         inDegree' = AList.update depId newDegree inDegree
     in (inDegree', if newDegree = 0 then queue @ [depId] else queue))"

definition positiveKeys :: "(string \<times> int) list \<Rightarrow> string set" where
  "positiveKeys inDegree = {k. \<exists>d. map_of inDegree k = Some d \<and> 1 \<le> d}"

definition kahn_measure :: "(string \<times> int) list \<times> string list \<Rightarrow> nat" where
  "kahn_measure = (\<lambda>(inDegree, queue). length queue + card (positiveKeys inDegree))"

lemma finite_positiveKeys: "finite (positiveKeys inDegree)"
proof -
  have "positiveKeys inDegree \<subseteq> dom (map_of inDegree)" by (auto simp: positiveKeys_def)
  then show ?thesis by (rule finite_subset) (rule finite_dom_map_of)
qed

lemma relax_measure: "kahn_measure (relax depId s) = kahn_measure s"
proof (cases s)
  case (Pair inDegree queue)
  let ?cur = "degreeOf inDegree depId"
  let ?upd = "AList.update depId (?cur - 1) inDegree"
  have m: "map_of ?upd = (map_of inDegree)(depId \<mapsto> ?cur - 1)"
    by (simp add: update_conv')
  show ?thesis
  proof (cases "?cur = 1")
    case True
    then have "map_of inDegree depId = Some 1"
      by (auto simp: degreeOf_def split: option.splits)
    then have in_pos: "depId \<in> positiveKeys inDegree" by (simp add: positiveKeys_def)
    have "positiveKeys ?upd = positiveKeys inDegree - {depId}"
      using True by (auto simp: positiveKeys_def update_conv')
    then have "card (positiveKeys ?upd) = card (positiveKeys inDegree) - 1"
      using in_pos by (simp add: finite_positiveKeys)
    moreover have "0 < card (positiveKeys inDegree)"
      using in_pos finite_positiveKeys card_gt_0_iff by blast
    ultimately show ?thesis
      using True Pair by (simp add: relax_def kahn_measure_def Let_def)
  next
    case False
    have "positiveKeys ?upd = positiveKeys inDegree"
      using False by (auto simp: positiveKeys_def update_conv' degreeOf_def split: option.splits if_splits)
    then show ?thesis
      using False Pair by (simp add: relax_def kahn_measure_def Let_def)
  qed
qed

lemma fold_relax_measure: "kahn_measure (fold relax deps s) = kahn_measure s"
  by (induction deps arbitrary: s) (simp_all add: relax_measure)

function kahn_loop :: "Graph \<Rightarrow> string list \<Rightarrow> (string \<times> int) list \<Rightarrow> string list \<Rightarrow> string list" where
  "kahn_loop graph [] inDegree done_ids = done_ids"
| "kahn_loop graph (nodeId # queue) inDegree done_ids =
     (if nodeId = [] then kahn_loop graph queue inDegree done_ids
      else case map_of graph nodeId of
             None \<Rightarrow> kahn_loop graph queue inDegree (done_ids @ [nodeId])
           | Some node \<Rightarrow>
               (case fold relax (dependentPlanIds node) (inDegree, queue) of
                  (inDegree', queue') \<Rightarrow> kahn_loop graph queue' inDegree' (done_ids @ [nodeId])))"
  by pat_completeness auto
termination
proof (relation "measure (\<lambda>(graph, queue, inDegree, done_ids). kahn_measure (inDegree, queue))", goal_cases)
  case 1
  show ?case by simp
next
  case (2 graph nodeId queue inDegree done_ids)
  then show ?case by (simp add: kahn_measure_def)
next
  case (3 graph nodeId queue inDegree done_ids)
  then show ?case by (simp add: kahn_measure_def)
next
  case (4 graph nodeId queue inDegree done_ids node inDegree' queue')
  from 4 have "kahn_measure (inDegree', queue') = kahn_measure (inDegree, queue)"
    using fold_relax_measure [of "dependentPlanIds node" "(inDegree, queue)"] by simp
  then show ?case by (simp add: kahn_measure_def)
qed

text \<open>The two \<open>graph.forEach\<close> passes that fill \<open>inDegree\<close>.\<close>

definition zeroDegree :: "string \<times> DependencyNode \<Rightarrow> (string \<times> int) list \<Rightarrow> (string \<times> int) list" where
  "zeroDegree = (\<lambda>(nodeId, node) m. if map_of m nodeId = None then AList.update nodeId 0 m else m)"

definition countDegree :: "string \<times> DependencyNode \<Rightarrow> (string \<times> int) list \<Rightarrow> (string \<times> int) list" where
  "countDegree = (\<lambda>(nodeId, node) m.
     let dependencyCount = int (length (dependsOnPlanIds node))
     in if dependencyCount > 0 then AList.update (planId node) dependencyCount m else m)"

definition initDegrees :: "Graph \<Rightarrow> (string \<times> int) list" where
  "initDegrees graph = fold countDegree graph (fold zeroDegree graph [])"

definition seedQueue :: "(string \<times> int) list \<Rightarrow> string list" where
  "seedQueue inDegree = map fst (filter (\<lambda>(nodeId, degree). degree = 0) inDegree)"

definition topologicalSort :: "Graph \<Rightarrow> TopologicalSortResult" where
  "topologicalSort graph =
     (case detectCycle graph of
        (True, cyc) \<Rightarrow> \<lparr>sortedPlanIds = [], hasCycle = True, cycleNodes = Some cyc\<rparr>
      | (False, _) \<Rightarrow>
          (let inDegree = initDegrees graph;
               queue = seedQueue inDegree
           in \<lparr>sortedPlanIds = kahn_loop graph queue inDegree [], hasCycle = False,
               cycleNodes = None\<rparr>))"

definition findRootPlans :: "Graph \<Rightarrow> string list" where
  "findRootPlans graph = map fst (filter (\<lambda>(nodeId, node). dependsOnPlanIds node = []) graph)"


definition stackNode :: "StackPlan \<Rightarrow> Graph \<Rightarrow> Graph" where
  "stackNode sp graph =
     AList.update (sp_planId sp)
       \<lparr>planId = sp_planId sp, dependsOnPlanIds = sp_dependsOnPlanIds sp, dependentPlanIds = []\<rparr>
       graph"

definition stackGraph :: "StackPlan list \<Rightarrow> Graph" where
  "stackGraph stackPlans =
     fold (\<lambda>sp graph. fold (addDependent (sp_planId sp)) (sp_dependsOnPlanIds sp) graph)
       stackPlans (fold stackNode stackPlans [])"

definition getExecutionOrder :: "StackPlan list \<Rightarrow> TopologicalSortResult" where
  "getExecutionOrder stackPlans = topologicalSort (stackGraph stackPlans)"

section \<open>Stack store and stack manager\<close>

text \<open>The errors that \<open>executeStack\<close> throws or lets through: the two it throws itself,
  the one of \<open>updateStackPlanStatus\<close>, and the rejection of \<open>executePlan\<close>.\<close>

datatype ExecError =
    StackNotFound string
  | DependencyCycle "string list option"
  | ExecutePlanRejected string

definition loadStack :: "string \<Rightarrow> World \<Rightarrow> Stack option" where
  "loadStack name w = stackFiles w name"

definition saveStack :: "Stack \<Rightarrow> World \<Rightarrow> World" where
  "saveStack stack w = w\<lparr>stackFiles := (stackFiles w)(stackName stack \<mapsto> stack)\<rparr>"

text \<open>
  The \<open>Partial<StackPlan>\<close> that the executor passes to \<open>updateStackPlanStatus\<close>: a field
  that is \<open>None\<close> is absent from the object and leaves the plan's field as it is.
\<close>

record StackPlanUpdates =
  u_executionStatus :: "ExecutionStatus option"
  u_lastExecutedAt :: "timestamp option"
  u_executionDurationMs :: "nat option"

definition applyUpdates :: "StackPlanUpdates \<Rightarrow> StackPlan \<Rightarrow> StackPlan" where
  "applyUpdates u sp =
     sp\<lparr>sp_executionStatus :=
          (case u_executionStatus u of Some st \<Rightarrow> st | None \<Rightarrow> sp_executionStatus sp),
        sp_lastExecutedAt :=
          (case u_lastExecutedAt u of Some t \<Rightarrow> Some t | None \<Rightarrow> sp_lastExecutedAt sp),
        sp_executionDurationMs :=
          (case u_executionDurationMs u of Some d \<Rightarrow> Some d | None \<Rightarrow> sp_executionDurationMs sp)\<rparr>"

definition updateStackPlanStatus ::
  "string \<Rightarrow> string \<Rightarrow> StackPlanUpdates \<Rightarrow> World \<Rightarrow> (ExecError + Stack) \<times> World" where
  "updateStackPlanStatus name pid updates w =
     (case loadStack name w of
        None \<Rightarrow> (Inl (StackNotFound name), w)
      | Some stack \<Rightarrow>
          (let updatedPlans = map (\<lambda>sp. if sp_planId sp = pid then applyUpdates updates sp else sp)
                                (plans stack);
               (t, w1) = now w;
               updatedStack = stack\<lparr>plans := updatedPlans, updatedAt := t\<rparr>
           in (Inr updatedStack, saveStack updatedStack w1)))"

section \<open>Executor (\<open>core/executor.ts\<close>)\<close>

text \<open>
  What the outside world does with one plan: the plan file is missing, the process cannot
  be spawned (the \<open>error\<close> event, with its message), the process closes with an exit
  code (null when it was killed by a signal), or \<open>spawn\<close> throws synchronously inside the
  promise executor (an argument list that is too long or holds a NUL byte), which rejects
  the promise of \<open>executePlan\<close>; nothing in \<open>executePlan\<close> or \<open>executeStack\<close> catches that.
  The duration is \<open>Date.now() - startTime\<close>. The worker may depend on the whole durable
  state. The collected output and the progress callbacks do not reach the durable state and
  are left out.
\<close>

datatype WorkerOutcome =
    PlanNotFound
  | SpawnError string nat
  | Closed "int option" nat
  | SpawnThrows string

type_synonym Worker = "World \<Rightarrow> string \<Rightarrow> WorkerOutcome"

record ExecutePlanResult =
  r_planId :: string
  r_executionStatus :: ExecutionStatus
  r_exitCode :: "int option"
  r_errorMessage :: "string option"
  r_executionDurationMs :: nat

fun showNat :: "nat \<Rightarrow> string" where
  "showNat n = (if n < 10 then [char_of (48 + n)] else showNat (n div 10) @ [char_of (48 + n mod 10)])"

definition showCode :: "int option \<Rightarrow> string" where
  "showCode code =
     (case code of
        None \<Rightarrow> ''null''
      | Some i \<Rightarrow> (if i < 0 then CHR ''-'' # showNat (nat (- i)) else showNat (nat i)))"

definition executePlan ::
  "Worker \<Rightarrow> string \<Rightarrow> World \<Rightarrow> (ExecError + ExecutePlanResult) \<times> World" where
  "executePlan worker pid w =
     (let w1 = w\<lparr>executed := executed w @ [pid]\<rparr>
      in case worker w pid of
           PlanNotFound \<Rightarrow>
             (Inr \<lparr>r_planId = pid, r_executionStatus = failed, r_exitCode = Some 1,
                   r_errorMessage = Some (''Plan '' @ [CHR 0x27] @ pid @ [CHR 0x27] @ '' not found.''),
                   r_executionDurationMs = 0\<rparr>, w1)
         | SpawnError msg durationMs \<Rightarrow>
             (Inr \<lparr>r_planId = pid, r_executionStatus = failed, r_exitCode = Some 1,
                   r_errorMessage = Some msg, r_executionDurationMs = durationMs\<rparr>, w1)
         | Closed code durationMs \<Rightarrow>
             (Inr \<lparr>r_planId = pid,
                   r_executionStatus = (if code = Some 0 then completed else failed),
                   r_exitCode = code,
                   r_errorMessage =
                     (if code \<noteq> Some 0 then Some (''Process exited with code '' @ showCode code)
                      else None),
                   r_executionDurationMs = durationMs\<rparr>, w1)
         | SpawnThrows msg \<Rightarrow> (Inl (ExecutePlanRejected msg), w1))"

record ExecuteStackOptions =
  o_stackName :: string
  o_dryRun :: bool
  o_fromPlanId :: "string option"

record ExecuteStackResult =
  results :: "ExecutePlanResult list"
  executionOrder :: "string list"

text \<open>
  \<open>fromPlanId ? sortedPlanIds.slice(sortedPlanIds.indexOf(fromPlanId)) : sortedPlanIds\<close>:
  an absent and an empty \<open>fromPlanId\<close> are both falsy.
\<close>

definition orderFrom :: "string option \<Rightarrow> string list \<Rightarrow> string list" where
  "orderFrom fromPlanId sortedIds =
     (case fromPlanId of
        None \<Rightarrow> sortedIds
      | Some f \<Rightarrow> (if f \<noteq> [] then slice sortedIds (indexOf sortedIds f) else sortedIds))"

definition skipMessage :: string where
  "skipMessage = ''Skipped due to failed dependencies.''"

text \<open>
  The \<open>forEach\<close> that seeds \<open>completedPlanIds\<close>:
  \<open>currentStatus.planStatuses[sp.planId]?.executionStatus === 'completed'\<close>. When the key is
  not an own property the value read is \<open>undefined\<close> or a member of \<open>Object.prototype\<close>,
  whose \<open>executionStatus\<close> is \<open>undefined\<close>.
\<close>

definition seedCompleted :: "StackPlan list \<Rightarrow> StackExecutionStatus \<Rightarrow> string set" where
  "seedCompleted stackPlans currentStatus =
     fold (\<lambda>sp acc.
             case planStatuses currentStatus (sp_planId sp) of
               Some planStatus \<Rightarrow>
                 (if executionStatus planStatus = completed then insert (sp_planId sp) acc else acc)
             | None \<Rightarrow> acc)
       stackPlans {}"

text \<open>
  The body of the \<open>for\<close> loop of \<open>executeStack\<close> for one plan id. The loop state is the
  world, the set \<open>completedPlanIds\<close> and the array \<open>results\<close>. A throw of
  \<open>updateStackPlanStatus\<close> or a rejection of \<open>executePlan\<close> leaves the loop, and
  \<open>executeStack\<close>, with the world as it is then: no \<open>try\<close> or \<open>finally\<close> surrounds the
  loop.
\<close>

definition hasUnmetDependencies :: "Stack \<Rightarrow> string set \<Rightarrow> string \<Rightarrow> bool" where
  "hasUnmetDependencies stack completedPlanIds pid =
     (case find (\<lambda>p. sp_planId p = pid) (plans stack) of
        None \<Rightarrow> False
      | Some stackPlan \<Rightarrow> list_ex (\<lambda>depId. depId \<notin> completedPlanIds) (sp_dependsOnPlanIds stackPlan))"

definition skipPlan ::
  "string \<Rightarrow> string list \<Rightarrow> string \<Rightarrow> string set \<times> ExecutePlanResult list \<Rightarrow> World
     \<Rightarrow> (ExecError + string set \<times> ExecutePlanResult list) \<times> World" where
  "skipPlan name planIds pid = (\<lambda>(completedPlanIds, res) w.
     let w1 = updatePlanStatus name planIds pid skipped (Some skipMessage) None None w
     in case updateStackPlanStatus name pid
               \<lparr>u_executionStatus = Some skipped, u_lastExecutedAt = None,
                u_executionDurationMs = None\<rparr> w1 of
          (Inl e, w2) \<Rightarrow> (Inl e, w2)
        | (Inr _, w2) \<Rightarrow>
            (Inr (completedPlanIds,
                  res @ [\<lparr>r_planId = pid, r_executionStatus = skipped, r_exitCode = None,
                          r_errorMessage = Some skipMessage, r_executionDurationMs = 0\<rparr>]), w2))"

definition runPlan ::
  "Worker \<Rightarrow> string \<Rightarrow> string list \<Rightarrow> string \<Rightarrow> string set \<times> ExecutePlanResult list \<Rightarrow> World
     \<Rightarrow> (ExecError + string set \<times> ExecutePlanResult list) \<times> World" where
  "runPlan worker name planIds pid = (\<lambda>(completedPlanIds, res) w.
     let w1 = updatePlanStatus name planIds pid running None None None w
     in case updateStackPlanStatus name pid
               \<lparr>u_executionStatus = Some running, u_lastExecutedAt = None,
                u_executionDurationMs = None\<rparr> w1 of
          (Inl e, w2) \<Rightarrow> (Inl e, w2)
        | (Inr _, w2) \<Rightarrow>
            (case executePlan worker pid w2 of
               (Inl e, w3) \<Rightarrow> (Inl e, w3)
             | (Inr result, w3) \<Rightarrow>
                 (let w4 = updatePlanStatus name planIds pid (r_executionStatus result)
                             (r_errorMessage result) (r_exitCode result)
                             (Some (r_executionDurationMs result)) w3;
                      (t, w5) = now w4
                  in case updateStackPlanStatus name pid
                            \<lparr>u_executionStatus = Some (r_executionStatus result),
                             u_lastExecutedAt = Some t,
                             u_executionDurationMs = Some (r_executionDurationMs result)\<rparr> w5 of
                       (Inl e, w6) \<Rightarrow> (Inl e, w6)
                     | (Inr _, w6) \<Rightarrow>
                         (Inr (if r_executionStatus result = completed
                               then insert pid completedPlanIds else completedPlanIds,
                               res @ [result]), w6))))"

definition processPlan ::
  "Worker \<Rightarrow> string \<Rightarrow> Stack \<Rightarrow> string list \<Rightarrow> string \<Rightarrow> string set \<times> ExecutePlanResult list
     \<Rightarrow> World \<Rightarrow> (ExecError + string set \<times> ExecutePlanResult list) \<times> World" where
  "processPlan worker name stack planIds pid = (\<lambda>(completedPlanIds, res) w.
     if pid \<in> completedPlanIds then (Inr (completedPlanIds, res), w)
     else if hasUnmetDependencies stack completedPlanIds pid
     then skipPlan name planIds pid (completedPlanIds, res) w
     else runPlan worker name planIds pid (completedPlanIds, res) w)"

fun processPlans ::
  "Worker \<Rightarrow> string \<Rightarrow> Stack \<Rightarrow> string list \<Rightarrow> string list \<Rightarrow> string set \<times> ExecutePlanResult list
     \<Rightarrow> World \<Rightarrow> (ExecError + string set \<times> ExecutePlanResult list) \<times> World" where
  "processPlans worker name stack planIds [] st w = (Inr st, w)"
| "processPlans worker name stack planIds (pid # rest) st w =
     (case processPlan worker name stack planIds pid st w of
        (Inl e, w') \<Rightarrow> (Inl e, w')
      | (Inr st', w') \<Rightarrow> processPlans worker name stack planIds rest st' w')"

definition executeStack ::
  "Worker \<Rightarrow> ExecuteStackOptions \<Rightarrow> World \<Rightarrow> (ExecError + ExecuteStackResult) \<times> World" where
  "executeStack worker opts w =
     (let name = o_stackName opts
      in case loadStack name w of
           None \<Rightarrow> (Inl (StackNotFound name), w)
         | Some stack \<Rightarrow>
             (let sortResult = getExecutionOrder (plans stack)
              in if hasCycle sortResult then (Inl (DependencyCycle (cycleNodes sortResult)), w)
                 else
                   (let order = orderFrom (o_fromPlanId opts) (sortedPlanIds sortResult)
                    in if o_dryRun opts then (Inr \<lparr>results = [], executionOrder = order\<rparr>, w)
                       else
                         (let planIds = map sp_planId (plans stack);
                              w1 = setStackRunning name planIds True w;
                              currentStatus = loadStackStatus name planIds w1;
                              completedPlanIds = seedCompleted (plans stack) currentStatus
                          in case processPlans worker name stack planIds order
                                    (completedPlanIds, []) w1 of
                               (Inl e, w2) \<Rightarrow> (Inl e, w2)
                             | (Inr (_, res), w2) \<Rightarrow>
                                 (Inr \<lparr>results = res, executionOrder = order\<rparr>,
                                  setStackRunning name planIds False w2)))))"

definition getStackExecutionStatus :: "string \<Rightarrow> World \<Rightarrow> StackExecutionStatus option" where
  "getStackExecutionStatus name w =
     (case loadStack name w of
        None \<Rightarrow> None
      | Some stack \<Rightarrow> Some (loadStackStatus name (map sp_planId (plans stack)) w))"

section \<open>The \<open>run\<close> command (\<open>cli/commands/run.ts\<close>)\<close>

record RunOptions =
  opt_dryRun :: bool
  opt_from :: "string option"
  opt_reset :: bool

datatype RunOutcome =
    RunStackNotFound
  | AlreadyRunning
  | CycleReported "string list option"
  | FromNotFound string
  | DryRunShown "string list"
  | Ran "ExecError + ExecuteStackResult"

definition runCommand :: "Worker \<Rightarrow> string \<Rightarrow> RunOptions \<Rightarrow> World \<Rightarrow> RunOutcome \<times> World" where
  "runCommand worker name options w =
     (case loadStack name w of
        None \<Rightarrow> (RunStackNotFound, w)
      | Some stack \<Rightarrow>
          (if (case getStackExecutionStatus name w of
                 Some currentStatus \<Rightarrow> isRunning currentStatus | None \<Rightarrow> False)
           then (AlreadyRunning, w)
           else
             (let w1 = (if opt_reset options
                        then resetStackStatus name (map sp_planId (plans stack)) w else w);
                  sortResult = getExecutionOrder (plans stack)
              in if hasCycle sortResult then (CycleReported (cycleNodes sortResult), w1)
                 else
                   (let order = orderFrom (opt_from options) (sortedPlanIds sortResult)
                    in case (case opt_from options of
                               Some f \<Rightarrow> (if f \<noteq> [] \<and> f \<notin> set (sortedPlanIds sortResult)
                                          then Some f else None)
                             | None \<Rightarrow> None) of
                         Some f \<Rightarrow> (FromNotFound f, w1)
                       | None \<Rightarrow>
                           (if opt_dryRun options then (DryRunShown order, w1)
                            else
                              (case executeStack worker
                                      \<lparr>o_stackName = name, o_dryRun = False,
                                       o_fromPlanId = opt_from options\<rparr> w1 of
                                 (r, w2) \<Rightarrow> (Ran r, w2)))))))"

section \<open>Observations of the durable state\<close>

text \<open>
  The status store names a file after the \<open>stackName\<close> field of the record it saves. A
  status file written by the store therefore carries its own name; \<open>statusNameOk\<close> says so
  for the file of one stack.
\<close>

definition statusNameOk :: "string \<Rightarrow> World \<Rightarrow> bool" where
  "statusNameOk name w =
     (case statusFiles w name of None \<Rightarrow> True | Some status \<Rightarrow> ses_stackName status = name)"

text \<open>The persisted status of a plan, as \<open>loadStackStatus\<close> reads it back.\<close>

definition planStatusOf :: "string \<Rightarrow> string list \<Rightarrow> World \<Rightarrow> string \<Rightarrow> PlanExecutionStatus option" where
  "planStatusOf name planIds w pid = planStatuses (loadStackStatus name planIds w) pid"

definition statusIs :: "string \<Rightarrow> string list \<Rightarrow> World \<Rightarrow> string \<Rightarrow> ExecutionStatus \<Rightarrow> bool" where
  "statusIs name planIds w pid st =
     (case planStatusOf name planIds w pid of
        None \<Rightarrow> False
      | Some planStatus \<Rightarrow> executionStatus planStatus = st)"

text \<open>The dependencies the executor checks for a plan id: those of the first stack plan
  of that id.\<close>

definition stackDeps :: "Stack \<Rightarrow> string \<Rightarrow> string list" where
  "stackDeps stack pid =
     (case find (\<lambda>p. sp_planId p = pid) (plans stack) of
        None \<Rightarrow> []
      | Some stackPlan \<Rightarrow> sp_dependsOnPlanIds stackPlan)"

definition good :: "string \<Rightarrow> World \<Rightarrow> bool" where
  "good name w = (statusNameOk name w \<and> loadStack name w \<noteq> None)"

definition skippedEntry :: "string \<Rightarrow> timestamp \<Rightarrow> PlanExecutionStatus" where
  "skippedEntry pid t =
     \<lparr>pes_planId = pid, executionStatus = skipped, lastExecutedAt = Some t,
      executionDurationMs = None, errorMessage = Some skipMessage, exitCode = None\<rparr>"

definition resultEntry :: "ExecutePlanResult \<Rightarrow> timestamp \<Rightarrow> PlanExecutionStatus" where
  "resultEntry result t =
     \<lparr>pes_planId = r_planId result, executionStatus = r_executionStatus result,
      lastExecutedAt = Some t, executionDurationMs = Some (r_executionDurationMs result),
      errorMessage = r_errorMessage result, exitCode = r_exitCode result\<rparr>"

definition runningEntry :: "string \<Rightarrow> timestamp \<Rightarrow> PlanExecutionStatus" where
  "runningEntry pid t =
     \<lparr>pes_planId = pid, executionStatus = running, lastExecutedAt = Some t,
      executionDurationMs = None, errorMessage = None, exitCode = None\<rparr>"

text \<open>The world in which the loop calls \<open>executePlan\<close> for a plan: the one left by the two
  writes that mark the plan as running.\<close>

definition markRunning :: "string \<Rightarrow> string list \<Rightarrow> string \<Rightarrow> World \<Rightarrow> World" where
  "markRunning name planIds pid w =
     snd (updateStackPlanStatus name pid
            \<lparr>u_executionStatus = Some running, u_lastExecutedAt = None,
             u_executionDurationMs = None\<rparr>
            (updatePlanStatus name planIds pid running None None None w))"

text \<open>A worker under which no call of \<open>executePlan\<close> rejects.\<close>

definition neverRejects :: "Worker \<Rightarrow> bool" where
  "neverRejects worker \<longleftrightarrow> (\<forall>w pid msg. worker w pid \<noteq> SpawnThrows msg)"

text \<open>\<open>lastRunAt\<close> holds a clock reading taken at or after \<open>c0\<close>.\<close>

definition runStamped :: "string \<Rightarrow> string list \<Rightarrow> nat \<Rightarrow> World \<Rightarrow> bool" where
  "runStamped name planIds c0 w =
     (case lastRunAt (loadStackStatus name planIds w) of
        None \<Rightarrow> False
      | Some t \<Rightarrow> c0 \<le> t \<and> t < clock w)"

text \<open>What the loop over the plan ids \<open>xs\<close> does in any case, whether it runs to the end or
  is left by a rejection: the run flag stays, the plans outside \<open>xs\<close> keep their status
  entries, only plans of \<open>xs\<close> are handed to \<open>executePlan\<close>.\<close>

definition loopFrame :: "string \<Rightarrow> string list \<Rightarrow> string list \<Rightarrow> World \<Rightarrow> World \<Rightarrow> bool" where
  "loopFrame name planIds xs w w' \<longleftrightarrow>
     good name w'
     \<and> isRunning (loadStackStatus name planIds w') = isRunning (loadStackStatus name planIds w)
     \<and> (\<forall>q. q \<notin> set xs \<longrightarrow> planStatusOf name planIds w' q = planStatusOf name planIds w q)
     \<and> clock w \<le> clock w'
     \<and> (\<forall>c0. runStamped name planIds c0 w \<longrightarrow> runStamped name planIds c0 w')
     \<and> (\<exists>ys. executed w' = executed w @ ys \<and> set ys \<subseteq> set xs)"

text \<open>What the loop body does with one plan when it returns, and what the whole loop does
  when it runs to the end; \<open>C\<close> is \<open>completedPlanIds\<close> before and \<open>C'\<close> after.\<close>

definition planEffect ::
  "string \<Rightarrow> Stack \<Rightarrow> string list \<Rightarrow> string \<Rightarrow> string set \<Rightarrow> World \<Rightarrow> string set \<Rightarrow> World \<Rightarrow> bool" where
  "planEffect name stack planIds pid C w C' w' \<longleftrightarrow>
     good name w'
     \<and> isRunning (loadStackStatus name planIds w') = isRunning (loadStackStatus name planIds w)
     \<and> (\<forall>q. q \<noteq> pid \<longrightarrow> planStatusOf name planIds w' q = planStatusOf name planIds w q)
     \<and> C \<subseteq> C' \<and> C' \<subseteq> insert pid C
     \<and> clock w \<le> clock w'
     \<and> (\<forall>c0. runStamped name planIds c0 w \<longrightarrow> runStamped name planIds c0 w')
     \<and> (pid \<in> C \<longrightarrow> w' = w \<and> C' = C)
     \<and> (pid \<notin> C \<and> (\<exists>d \<in> set (stackDeps stack pid). d \<notin> C) \<longrightarrow>
          C' = C \<and> executed w' = executed w
          \<and> planStatusOf name planIds w' pid = Some (skippedEntry pid (clock w)))
     \<and> (pid \<notin> C \<and> (\<forall>d \<in> set (stackDeps stack pid). d \<in> C) \<longrightarrow>
          executed w' = executed w @ [pid]
          \<and> (\<exists>result t. planStatusOf name planIds w' pid = Some (resultEntry result t)
                \<and> (r_executionStatus result = completed \<or> r_executionStatus result = failed)
                \<and> (pid \<in> C') = (r_executionStatus result = completed)))"

definition loopEffect ::
  "string \<Rightarrow> string list \<Rightarrow> string list \<Rightarrow> string set \<Rightarrow> World \<Rightarrow> string set \<Rightarrow> World \<Rightarrow> bool" where
  "loopEffect name planIds xs C w C' w' \<longleftrightarrow>
     good name w'
     \<and> isRunning (loadStackStatus name planIds w') = isRunning (loadStackStatus name planIds w)
     \<and> (\<forall>q. q \<notin> set xs \<or> q \<in> C \<longrightarrow> planStatusOf name planIds w' q = planStatusOf name planIds w q)
     \<and> C \<subseteq> C' \<and> C' \<subseteq> C \<union> set xs
     \<and> clock w \<le> clock w'
     \<and> (\<forall>c0. runStamped name planIds c0 w \<longrightarrow> runStamped name planIds c0 w')
     \<and> (\<exists>ys. executed w' = executed w @ ys \<and> set ys \<subseteq> set xs - C)
     \<and> (\<forall>q \<in> C'. q \<in> C \<or> statusIs name planIds w' q completed)
     \<and> (\<forall>q. q \<in> C' \<or> planStatusOf name planIds w' q = planStatusOf name planIds w q
             \<or> \<not> statusIs name planIds w' q completed)"

definition runOrder :: "ExecuteStackOptions \<Rightarrow> Stack \<Rightarrow> string list" where
  "runOrder opts stack =
     orderFrom (o_fromPlanId opts) (sortedPlanIds (getExecutionOrder (plans stack)))"

definition planIdsOf :: "Stack \<Rightarrow> string list" where
  "planIdsOf stack = map sp_planId (plans stack)"

definition runSeed :: "string \<Rightarrow> Stack \<Rightarrow> World \<Rightarrow> string set" where
  "runSeed name stack w =
     seedCompleted (plans stack)
       (loadStackStatus name (planIdsOf stack) (setStackRunning name (planIdsOf stack) True w))"

text \<open>The \<open>for\<close> loop of a non-dry run, started in the world that
  \<open>setStackRunning(true)\<close> leaves; its second component is the world when the loop is
  left.\<close>

definition runLoop ::
  "Worker \<Rightarrow> ExecuteStackOptions \<Rightarrow> Stack \<Rightarrow> World
     \<Rightarrow> (ExecError + string set \<times> ExecutePlanResult list) \<times> World" where
  "runLoop worker opts stack w =
     processPlans worker (o_stackName opts) stack (planIdsOf stack) (runOrder opts stack)
       (runSeed (o_stackName opts) stack w, [])
       (setStackRunning (o_stackName opts) (planIdsOf stack) True w)"

text \<open>The plans handed to \<open>executePlan\<close> between two worlds, the second reached from the
  first.\<close>

definition executedIn :: "World \<Rightarrow> World \<Rightarrow> string list" where
  "executedIn w w' = drop (length (executed w)) (executed w')"

definition depsOf :: "Graph \<Rightarrow> string \<Rightarrow> string list" where
  "depsOf graph k = (case map_of graph k of None \<Rightarrow> [] | Some node \<Rightarrow> dependsOnPlanIds node)"

definition dependentsOf :: "Graph \<Rightarrow> string \<Rightarrow> string list" where
  "dependentsOf graph k = (case map_of graph k of None \<Rightarrow> [] | Some node \<Rightarrow> dependentPlanIds node)"

definition consistentGraph :: "Graph \<Rightarrow> bool" where
  "consistentGraph graph \<longleftrightarrow>
     distinct (map fst graph)
     \<and> (\<forall>(k, node) \<in> set graph. planId node = k)
     \<and> (\<forall>d \<in> fst ` set graph. \<forall>t.
           count_list (dependentsOf graph d) t =
             (if t \<in> fst ` set graph then count_list (depsOf graph t) d else 0))"

definition kahnInv :: "Graph \<Rightarrow> string list \<Rightarrow> (string \<times> int) list \<Rightarrow> string list \<Rightarrow> bool" where
  "kahnInv graph queue inDegree done_ids \<longleftrightarrow>
     distinct (done_ids @ queue)
     \<and> set (done_ids @ queue) \<subseteq> fst ` set graph
     \<and> (\<forall>t \<in> fst ` set graph.
           degreeOf inDegree t = int (length (filter (\<lambda>d. d \<notin> set done_ids) (depsOf graph t))))
     \<and> (\<forall>t \<in> set (done_ids @ queue). degreeOf inDegree t = 0)
     \<and> (\<forall>t \<in> fst ` set graph. degreeOf inDegree t = 0 \<and> t \<noteq> [] \<longrightarrow> t \<in> set (done_ids @ queue))
     \<and> (\<forall>pre t post. done_ids = pre @ t # post \<longrightarrow> set (depsOf graph t) \<subseteq> set pre)
     \<and> [] \<notin> set done_ids"

definition kahnFinal :: "Graph \<Rightarrow> string list \<Rightarrow> bool" where
  "kahnFinal graph done_ids \<longleftrightarrow>
     distinct done_ids
     \<and> set done_ids \<subseteq> fst ` set graph
     \<and> [] \<notin> set done_ids
     \<and> (\<forall>pre t post. done_ids = pre @ t # post \<longrightarrow> set (depsOf graph t) \<subseteq> set pre)
     \<and> (\<forall>t \<in> fst ` set graph. t \<noteq> [] \<and> t \<notin> set done_ids \<longrightarrow>
           (\<exists>d \<in> set (depsOf graph t). d \<notin> set done_ids))"

definition freshNode :: "StackPlan \<Rightarrow> DependencyNode" where
  "freshNode sp = \<lparr>planId = sp_planId sp, dependsOnPlanIds = sp_dependsOnPlanIds sp, dependentPlanIds = []\<rparr>"

definition dependentsFrom :: "StackPlan list \<Rightarrow> string \<Rightarrow> string list" where
  "dependentsFrom sps k =
     concat (map (\<lambda>sp. replicate (count_list (sp_dependsOnPlanIds sp) k) (sp_planId sp)) sps)"

definition edges :: "Graph \<Rightarrow> (string \<times> string) set" where
  "edges graph = {(n, d). d \<in> set (depsOf graph n)}"

fun isWalk :: "Graph \<Rightarrow> string list \<Rightarrow> bool" where
  "isWalk graph [] = True"
| "isWalk graph [x] = True"
| "isWalk graph (x # y # zs) = (y \<in> set (depsOf graph x) \<and> isWalk graph (y # zs))"

definition validCycle :: "Graph \<Rightarrow> string list \<Rightarrow> bool" where
  "validCycle graph cs \<longleftrightarrow> 2 \<le> length cs \<and> hd cs = last cs \<and> isWalk graph cs"

definition settled :: "Graph \<Rightarrow> string set \<Rightarrow> bool" where
  "settled graph B \<longleftrightarrow>
     (\<forall>x \<in> B. set (depsOf graph x) \<subseteq> B) \<and> (\<forall>x \<in> B. (x, x) \<notin> (edges graph)\<^sup>+)"

definition planEdges :: "StackPlan list \<Rightarrow> (string \<times> string) set" where
  "planEdges sps = {(sp_planId sp, d) | sp d. sp \<in> set sps \<and> d \<in> set (sp_dependsOnPlanIds sp)}"

text \<open>What a non-dry run over an acyclic stack with unique plan ids does with each plan.\<close>

definition runFacts ::
  "string \<Rightarrow> Stack \<Rightarrow> World \<Rightarrow> World \<Rightarrow> string list \<Rightarrow> bool" where
  "runFacts name stack w w' order \<longleftrightarrow>
     (\<exists>ys. executed w' = executed w @ ys \<and> set ys \<subseteq> set order)
     \<and> (\<forall>p. statusIs name (planIdsOf stack) w p completed \<and> p \<in> set (planIdsOf stack) \<longrightarrow>
           p \<notin> set (executedIn w w')
           \<and> planStatusOf name (planIdsOf stack) w' p = planStatusOf name (planIdsOf stack) w p)
     \<and> (\<forall>q \<in> set order.
           \<not> statusIs name (planIdsOf stack) w q completed
           \<and> (\<exists>a \<in> set (stackDeps stack q). \<not> statusIs name (planIdsOf stack) w' a completed) \<longrightarrow>
           q \<notin> set (executedIn w w')
           \<and> (\<exists>t. planStatusOf name (planIdsOf stack) w' q = Some (skippedEntry q t)))
     \<and> (\<forall>q \<in> set order.
           \<not> statusIs name (planIdsOf stack) w q completed
           \<and> (\<forall>a \<in> set (stackDeps stack q).
                 a \<in> set (planIdsOf stack) \<and> statusIs name (planIdsOf stack) w' a completed) \<longrightarrow>
           q \<in> set (executedIn w w')
           \<and> (statusIs name (planIdsOf stack) w' q completed
               \<or> statusIs name (planIdsOf stack) w' q failed))"




section \<open>Sample data\<close>

definition mkPlan :: "string \<Rightarrow> string list \<Rightarrow> StackPlan" where
  "mkPlan pid deps =
     \<lparr>sp_planId = pid, sp_dependsOnPlanIds = deps, sp_executionStatus = pending,
      sp_lastExecutedAt = None, sp_executionDurationMs = None\<rparr>"

definition mkStack :: "string \<Rightarrow> StackPlan list \<Rightarrow> Stack" where
  "mkStack name stackPlans =
     \<lparr>stackName = name, plans = stackPlans, rootPlanIds = [], createdAt = 0, updatedAt = 0\<rparr>"

text \<open>A world that holds one stack and no status file.\<close>

definition mkWorld :: "Stack \<Rightarrow> World" where
  "mkWorld stack =
     \<lparr>stackFiles = [stackName stack \<mapsto> stack], statusFiles = Map.empty, clock = 0,
      executed = []\<rparr>"

text \<open>A status entry of a plan with a given status and nothing else recorded.\<close>

definition entryWith :: "string \<Rightarrow> ExecutionStatus \<Rightarrow> PlanExecutionStatus" where
  "entryWith pid st = (pendingStatus pid)\<lparr>executionStatus := st\<rparr>"

text \<open>A world that holds one stack and its status file.\<close>

definition mkWorldWith :: "Stack \<Rightarrow> (string \<times> ExecutionStatus) list \<Rightarrow> bool \<Rightarrow> World" where
  "mkWorldWith stack sts flag =
     \<lparr>stackFiles = [stackName stack \<mapsto> stack],
      statusFiles = [stackName stack \<mapsto>
        \<lparr>ses_stackName = stackName stack,
         planStatuses = map_of (map (\<lambda>(pid, st). (pid, entryWith pid st)) sts),
         lastRunAt = None, isRunning = flag\<rparr>],
      clock = 0, executed = []\<rparr>"

text \<open>Workers: every plan exits with code 0; plan \<open>A\<close> exits with code 2, the others with 0.\<close>

definition okWorker :: Worker where
  "okWorker w pid = Closed (Some 0) 5"

definition failWorker :: "string \<Rightarrow> Worker" where
  "failWorker bad w pid = (if pid = bad then Closed (Some 2) 5 else Closed (Some 0) 7)"

text \<open>A worker for which \<open>spawn\<close> throws on plan \<open>bad\<close>; the other plans exit with code 0.\<close>

definition throwWorker :: "string \<Rightarrow> Worker" where
  "throwWorker bad w pid = (if pid = bad then SpawnThrows ''spawn E2BIG'' else Closed (Some 0) 5)"

text \<open>A chain \<open>A\<close>, \<open>B\<close>, \<open>C\<close> of dependent plans and an independent plan \<open>D\<close>.\<close>

definition chainStack :: Stack where
  "chainStack = mkStack ''s'' [mkPlan ''A'' [], mkPlan ''B'' [''A''], mkPlan ''C'' [''B''], mkPlan ''D'' []]"

text \<open>A stack resumed after a partial run: \<open>A\<close> completed, its dependent \<open>B\<close> skipped.\<close>

definition resumeWorld :: World where
  "resumeWorld =
     mkWorldWith (mkStack ''s'' [mkPlan ''A'' [], mkPlan ''B'' [''A'']])
       [(''A'', completed), (''B'', skipped)] False"


section \<open>Status store: what is read back after a write\<close>

lemma fromEntries_pending:
  "p \<in> set planIds \<Longrightarrow>
   fromEntries (map (\<lambda>planId. (planId, pendingStatus planId)) planIds) p = Some (pendingStatus p)"
  by (simp add: fromEntries_def rev_map map_of_map_restrict)

lemma proto_is_member: "''__proto__'' \<in> set objectPrototypeKeys"
  by (simp add: objectPrototypeKeys_def)

lemma truthy_own: "m p = Some s \<Longrightarrow> truthyMember m p"
  by (simp add: truthyMember_def)

lemma assign_ordinary: "key \<noteq> ''__proto__'' \<Longrightarrow> assignMember m key v = m(key \<mapsto> v)"
  by (simp add: assignMember_def)

lemma assign_own: "m key \<noteq> None \<Longrightarrow> assignMember m key v = m(key \<mapsto> v)"
  by (auto simp: assignMember_def)

lemma assign_other: "p \<noteq> key \<Longrightarrow> assignMember m key v p = m p"
  by (simp add: assignMember_def)

lemma truthy_assign: "truthyMember m p \<Longrightarrow> truthyMember (assignMember m key v) p"
  by (auto simp: truthyMember_def assignMember_def)

lemma backfill_step_keeps:
  "m p = Some s \<Longrightarrow>
   (if \<not> truthyMember m a then assignMember m a (pendingStatus a) else m) p = Some s"
  by (auto simp: truthyMember_def assignMember_def)

lemma backfill_keeps: "m p = Some s \<Longrightarrow> backfill planIds m p = Some s"
proof (induction planIds arbitrary: m)
  case Nil
  then show ?case by simp
next
  case (Cons a planIds)
  have "(if \<not> truthyMember m a then assignMember m a (pendingStatus a) else m) p = Some s"
    using Cons.prems by (rule backfill_step_keeps)
  then have "backfill planIds (if \<not> truthyMember m a then assignMember m a (pendingStatus a) else m) p = Some s"
    by (rule Cons.IH)
  then show ?case by simp
qed

lemma backfill_truthy_mono: "truthyMember m p \<Longrightarrow> truthyMember (backfill planIds m) p"
proof (induction planIds arbitrary: m)
  case Nil
  then show ?case by simp
next
  case (Cons a planIds)
  from Cons.prems
  have "truthyMember (if \<not> truthyMember m a then assignMember m a (pendingStatus a) else m) p"
    by (simp add: truthy_assign)
  then show ?case using Cons.IH by simp
qed

lemma backfill_id: "\<forall>p \<in> set ps. truthyMember m p \<Longrightarrow> backfill ps m = m"
  by (induction ps arbitrary: m) auto

lemma backfill_covers: "\<forall>p \<in> set planIds. truthyMember (backfill planIds m) p"
proof (induction planIds arbitrary: m)
  case Nil
  then show ?case by simp
next
  case (Cons a planIds)
  let ?m1 = "if \<not> truthyMember m a then assignMember m a (pendingStatus a) else m"
  have "truthyMember ?m1 a"
    using proto_is_member by (auto simp: truthyMember_def assignMember_def)
  then have "truthyMember (backfill planIds ?m1) a" by (rule backfill_truthy_mono)
  with Cons.IH [of ?m1] show ?case by simp
qed

text \<open>A plan id that names no member of \<open>Object.prototype\<close> has an entry after the load.\<close>

lemma backfill_dom:
  "p \<in> set planIds \<Longrightarrow> p \<notin> set objectPrototypeKeys \<Longrightarrow> backfill planIds m p \<noteq> None"
  using backfill_covers [of planIds m] by (auto simp: truthyMember_def)

lemma backfill_idem: "backfill planIds (backfill planIds m) = backfill planIds m"
  by (rule backfill_id) (rule backfill_covers)

lemma fromEntries_dom: "dom (fromEntries es) = fst ` set es"
  by (simp add: fromEntries_def dom_map_of_conv_image_fst)

lemma default_covers: "\<forall>p \<in> set planIds. truthyMember (planStatuses (createDefaultStatus name planIds)) p"
  by (auto simp: createDefaultStatus_def fromEntries_pending truthyMember_def)

lemma load_name: "statusNameOk name w \<Longrightarrow> ses_stackName (loadStackStatus name planIds w) = name"
  by (auto simp: statusNameOk_def loadStackStatus_def createDefaultStatus_def split: option.splits)

lemma load_covers: "\<forall>p \<in> set planIds. truthyMember (planStatuses (loadStackStatus name planIds w)) p"
  using backfill_covers default_covers
  by (auto simp: loadStackStatus_def split: option.splits)

lemma load_save:
  "ses_stackName status = name \<Longrightarrow> \<forall>p \<in> set planIds. truthyMember (planStatuses status) p \<Longrightarrow>
   loadStackStatus name planIds (saveStackStatus status w) = status"
  by (simp add: loadStackStatus_def saveStackStatus_def backfill_id)

lemma load_clock [simp]: "loadStackStatus name planIds (w\<lparr>clock := c\<rparr>) = loadStackStatus name planIds w"
  by (simp add: loadStackStatus_def)

lemma load_executed [simp]: "loadStackStatus name planIds (w\<lparr>executed := e\<rparr>) = loadStackStatus name planIds w"
  by (simp add: loadStackStatus_def)

lemma load_stackFiles [simp]: "loadStackStatus name planIds (w\<lparr>stackFiles := f\<rparr>) = loadStackStatus name planIds w"
  by (simp add: loadStackStatus_def)

lemma load_updatePlanStatus:
  assumes "statusNameOk name w"
  shows "loadStackStatus name planIds (updatePlanStatus name planIds pid st err code dur w) =
     (loadStackStatus name planIds w)
       \<lparr>planStatuses := assignMember (planStatuses (loadStackStatus name planIds w)) pid
          \<lparr>pes_planId = pid, executionStatus = st, lastExecutedAt = Some (clock w),
           executionDurationMs = dur, errorMessage = err, exitCode = code\<rparr>,
        lastRunAt := Some (Suc (clock w))\<rparr>"
proof -
  let ?s = "loadStackStatus name planIds w"
  have n: "ses_stackName ?s = name" using assms by (rule load_name)
  have c: "\<forall>p \<in> set planIds. truthyMember (planStatuses ?s) p" by (rule load_covers)
  let ?t = "?s\<lparr>planStatuses := assignMember (planStatuses ?s) pid
          \<lparr>pes_planId = pid, executionStatus = st, lastExecutedAt = Some (clock w),
           executionDurationMs = dur, errorMessage = err, exitCode = code\<rparr>,
        lastRunAt := Some (Suc (clock w))\<rparr>"
  have "loadStackStatus name planIds (saveStackStatus ?t v) = ?t" for v
    by (rule load_save) (use n c in \<open>auto simp: truthy_assign\<close>)
  then show ?thesis
    by (simp add: updatePlanStatus_def Let_def now_def)
qed

lemma load_setStackRunning:
  assumes "statusNameOk name w"
  shows "loadStackStatus name planIds (setStackRunning name planIds flag w) =
     (if flag then (loadStackStatus name planIds w)\<lparr>isRunning := True, lastRunAt := Some (clock w)\<rparr>
      else (loadStackStatus name planIds w)\<lparr>isRunning := False\<rparr>)"
proof -
  let ?s = "loadStackStatus name planIds w"
  have n: "ses_stackName ?s = name" using assms by (rule load_name)
  have c: "\<forall>p \<in> set planIds. truthyMember (planStatuses ?s) p" by (rule load_covers)
  show ?thesis
  proof (cases flag)
    case True
    have "loadStackStatus name planIds (saveStackStatus (?s\<lparr>isRunning := True, lastRunAt := Some (clock w)\<rparr>) (w\<lparr>clock := Suc (clock w)\<rparr>))
        = ?s\<lparr>isRunning := True, lastRunAt := Some (clock w)\<rparr>"
      by (rule load_save) (use n c in auto)
    with True show ?thesis by (simp add: setStackRunning_def Let_def now_def)
  next
    case False
    have "loadStackStatus name planIds (saveStackStatus (?s\<lparr>isRunning := False\<rparr>) w) = ?s\<lparr>isRunning := False\<rparr>"
      by (rule load_save) (use n c in auto)
    with False show ?thesis by (simp add: setStackRunning_def Let_def)
  qed
qed

lemma nameOk_save: "ses_stackName status = name \<Longrightarrow> statusNameOk name (saveStackStatus status w)"
  by (simp add: statusNameOk_def saveStackStatus_def)

lemma nameOk_clock [simp]: "statusNameOk name (w\<lparr>clock := c\<rparr>) = statusNameOk name w"
  by (simp add: statusNameOk_def)

lemma nameOk_executed [simp]: "statusNameOk name (w\<lparr>executed := e\<rparr>) = statusNameOk name w"
  by (simp add: statusNameOk_def)

lemma nameOk_stackFiles [simp]: "statusNameOk name (w\<lparr>stackFiles := f\<rparr>) = statusNameOk name w"
  by (simp add: statusNameOk_def)

lemma nameOk_updatePlanStatus:
  "statusNameOk name w \<Longrightarrow> statusNameOk name (updatePlanStatus name planIds pid st err code dur w)"
  by (simp add: updatePlanStatus_def Let_def now_def nameOk_save load_name)

lemma nameOk_setStackRunning:
  "statusNameOk name w \<Longrightarrow> statusNameOk name (setStackRunning name planIds flag w)"
  by (simp add: setStackRunning_def Let_def now_def nameOk_save load_name)

section \<open>Reset\<close>

text \<open>
  C8. Whatever the status file of the stack held before, after \<open>resetStackStatus\<close> the
  file holds, for every plan id of the stack, the status \<open>pending\<close> with
  \<open>lastExecutedAt\<close>, \<open>executionDurationMs\<close>, \<open>errorMessage\<close> and \<open>exitCode\<close> null, and at the
  run level \<open>lastRunAt\<close> null and \<open>isRunning\<close> false; reading it back with
  \<open>loadStackStatus\<close> returns the same.
\<close>

theorem reset_returns_all_to_pending:
  "\<exists>status. statusFiles (resetStackStatus name planIds w) name = Some status
     \<and> loadStackStatus name planIds (resetStackStatus name planIds w) = status
     \<and> lastRunAt status = None \<and> isRunning status = False
     \<and> (\<forall>p \<in> set planIds. \<exists>ps. planStatuses status p = Some ps
           \<and> executionStatus ps = pending \<and> lastExecutedAt ps = None
           \<and> executionDurationMs ps = None \<and> errorMessage ps = None \<and> exitCode ps = None)"
proof -
  let ?d = "createDefaultStatus name planIds"
  have stored: "statusFiles (resetStackStatus name planIds w) name = Some ?d"
    by (simp add: resetStackStatus_def saveStackStatus_def createDefaultStatus_def)
  have entry: "planStatuses ?d p = Some (pendingStatus p)" if "p \<in> set planIds" for p
    using that by (simp add: createDefaultStatus_def fromEntries_pending)
  have fill: "backfill ps (planStatuses ?d) = planStatuses ?d" if "set ps \<subseteq> set planIds" for ps
    using that by (induction ps) (auto simp: entry truthyMember_def)
  have load: "loadStackStatus name planIds (resetStackStatus name planIds w) = ?d"
    by (simp add: loadStackStatus_def stored fill)
  have run: "lastRunAt ?d = None \<and> isRunning ?d = False"
    by (simp add: createDefaultStatus_def)
  have each: "\<forall>p \<in> set planIds. \<exists>ps. planStatuses ?d p = Some ps
           \<and> executionStatus ps = pending \<and> lastExecutedAt ps = None
           \<and> executionDurationMs ps = None \<and> errorMessage ps = None \<and> exitCode ps = None"
    by (auto simp: entry pendingStatus_def)
  from stored load run each show ?thesis by blast
qed

theorem reset_returns_all_to_pending_witness:
  "\<exists>status. statusFiles (resetStackStatus ''s'' [''A'', ''B'']
        (mkWorldWith (mkStack ''s'' [mkPlan ''A'' [], mkPlan ''B'' [''A'']])
           [(''A'', failed), (''B'', skipped)] True)) ''s'' = Some status
     \<and> lastRunAt status = None \<and> isRunning status = False
     \<and> (\<exists>ps. planStatuses status ''A'' = Some ps
           \<and> executionStatus ps = pending \<and> lastExecutedAt ps = None
           \<and> executionDurationMs ps = None \<and> errorMessage ps = None \<and> exitCode ps = None)
     \<and> (\<exists>ps. planStatuses status ''B'' = Some ps
           \<and> executionStatus ps = pending \<and> lastExecutedAt ps = None
           \<and> executionDurationMs ps = None \<and> errorMessage ps = None \<and> exitCode ps = None)"
  using reset_returns_all_to_pending [of "''s''" "[''A'', ''B'']"
      "mkWorldWith (mkStack ''s'' [mkPlan ''A'' [], mkPlan ''B'' [''A'']])
           [(''A'', failed), (''B'', skipped)] True"]
  by auto

lemma updatePlanStatus_frame:
  "stackFiles (updatePlanStatus name planIds pid st err code dur w) = stackFiles w"
  "executed (updatePlanStatus name planIds pid st err code dur w) = executed w"
  "clock (updatePlanStatus name planIds pid st err code dur w) = clock w + 2"
  by (simp_all add: updatePlanStatus_def Let_def now_def saveStackStatus_def)

lemma setStackRunning_frame:
  "stackFiles (setStackRunning name planIds flag w) = stackFiles w"
  "executed (setStackRunning name planIds flag w) = executed w"
  "clock (setStackRunning name planIds flag w) = (if flag then Suc (clock w) else clock w)"
  by (simp_all add: setStackRunning_def Let_def now_def saveStackStatus_def)

lemma updateStackPlanStatus_ok:
  assumes "loadStack name w = Some stack"
  shows "\<exists>st w'. updateStackPlanStatus name pid u w = (Inr st, w')
           \<and> statusFiles w' = statusFiles w \<and> executed w' = executed w
           \<and> clock w' = Suc (clock w) \<and> loadStack name w' \<noteq> None"
  using assms
  by (simp add: updateStackPlanStatus_def Let_def now_def saveStack_def loadStack_def)

lemma load_cong: "statusFiles w' = statusFiles w \<Longrightarrow> loadStackStatus name planIds w' = loadStackStatus name planIds w"
  by (simp add: loadStackStatus_def)

lemma nameOk_cong: "statusFiles w' = statusFiles w \<Longrightarrow> statusNameOk name w' = statusNameOk name w"
  by (simp add: statusNameOk_def)

lemma good_updatePlanStatus:
  "good name w \<Longrightarrow> good name (updatePlanStatus name planIds pid st err code dur w)"
  by (simp add: good_def nameOk_updatePlanStatus loadStack_def updatePlanStatus_frame)

lemma good_setStackRunning:
  "good name w \<Longrightarrow> good name (setStackRunning name planIds flag w)"
  by (simp add: good_def nameOk_setStackRunning loadStack_def setStackRunning_frame)

lemma skipPlan_effect:
  assumes "good name w"
  shows "\<exists>w'. skipPlan name planIds pid (C, res) w =
             (Inr (C, res @ [\<lparr>r_planId = pid, r_executionStatus = skipped, r_exitCode = None,
                          r_errorMessage = Some skipMessage, r_executionDurationMs = 0\<rparr>]), w')
          \<and> good name w' \<and> executed w' = executed w \<and> clock w' = clock w + 3
          \<and> loadStackStatus name planIds w' =
              (loadStackStatus name planIds w)
                \<lparr>planStatuses := assignMember (planStatuses (loadStackStatus name planIds w))
                                   pid (skippedEntry pid (clock w)),
                 lastRunAt := Some (Suc (clock w))\<rparr>"
proof -
  let ?w1 = "updatePlanStatus name planIds pid skipped (Some skipMessage) None None w"
  let ?u = "\<lparr>u_executionStatus = Some skipped, u_lastExecutedAt = None, u_executionDurationMs = None\<rparr>"
  have ok: "statusNameOk name w" and g1: "good name ?w1"
    using assms good_updatePlanStatus by (auto simp: good_def)
  then obtain stack where "loadStack name ?w1 = Some stack" by (auto simp: good_def)
  from updateStackPlanStatus_ok [OF this, of pid ?u]
  obtain st w' where u: "updateStackPlanStatus name pid ?u ?w1 = (Inr st, w')"
    and f: "statusFiles w' = statusFiles ?w1" "executed w' = executed ?w1"
       "clock w' = Suc (clock ?w1)" "loadStack name w' \<noteq> None"
    by blast
  have "good name w'" using g1 f by (simp add: good_def nameOk_cong [OF f(1)])
  moreover have "loadStackStatus name planIds w' = loadStackStatus name planIds ?w1"
    using f(1) by (rule load_cong)
  ultimately show ?thesis
    using u f by (simp add: skipPlan_def load_updatePlanStatus [OF ok] updatePlanStatus_frame skippedEntry_def)
qed

lemma executePlan_frame:
  "executePlan worker pid w = (r, w') \<Longrightarrow> w' = w\<lparr>executed := executed w @ [pid]\<rparr>"
  by (auto simp: executePlan_def Let_def split: WorkerOutcome.splits)

lemma executePlan_Inr:
  "executePlan worker pid w = (Inr result, w') \<Longrightarrow>
     r_planId result = pid
     \<and> (r_executionStatus result = completed \<or> r_executionStatus result = failed)"
  by (auto simp: executePlan_def Let_def split: WorkerOutcome.splits if_splits)

lemma executePlan_Inl:
  "executePlan worker pid w = (Inl e, w') \<Longrightarrow>
     \<exists>msg. e = ExecutePlanRejected msg \<and> worker w pid = SpawnThrows msg"
  by (auto simp: executePlan_def Let_def split: WorkerOutcome.splits)

lemma executePlan_returns:
  "\<forall>msg. worker w pid \<noteq> SpawnThrows msg \<Longrightarrow> \<exists>result w'. executePlan worker pid w = (Inr result, w')"
  by (cases "worker w pid") (auto simp: executePlan_def Let_def)

lemma good_executed [simp]: "good name (w\<lparr>executed := e\<rparr>) = good name w"
  by (simp add: good_def loadStack_def)

lemma good_clock [simp]: "good name (w\<lparr>clock := e\<rparr>) = good name w"
  by (simp add: good_def loadStack_def)

text \<open>The two writes that mark a plan as running.\<close>

lemma markRunning_facts:
  assumes "good name w"
  shows "good name (markRunning name planIds pid w)"
    and "executed (markRunning name planIds pid w) = executed w"
    and "clock (markRunning name planIds pid w) = clock w + 3"
    and "loadStackStatus name planIds (markRunning name planIds pid w) =
              (loadStackStatus name planIds w)
                \<lparr>planStatuses := assignMember (planStatuses (loadStackStatus name planIds w))
                                   pid (runningEntry pid (clock w)),
                 lastRunAt := Some (Suc (clock w))\<rparr>"
    and "\<exists>st. updateStackPlanStatus name pid
            \<lparr>u_executionStatus = Some running, u_lastExecutedAt = None,
             u_executionDurationMs = None\<rparr>
            (updatePlanStatus name planIds pid running None None None w)
          = (Inr st, markRunning name planIds pid w)"
proof -
  let ?w1 = "updatePlanStatus name planIds pid running None None None w"
  let ?u = "\<lparr>u_executionStatus = Some running, u_lastExecutedAt = None, u_executionDurationMs = None\<rparr>"
  have ok: "statusNameOk name w" and g1: "good name ?w1"
    using assms good_updatePlanStatus by (auto simp: good_def)
  then obtain stack where "loadStack name ?w1 = Some stack" by (auto simp: good_def)
  from updateStackPlanStatus_ok [OF this, of pid ?u]
  obtain st w2 where u: "updateStackPlanStatus name pid ?u ?w1 = (Inr st, w2)"
    and f: "statusFiles w2 = statusFiles ?w1" "executed w2 = executed ?w1"
       "clock w2 = Suc (clock ?w1)" "loadStack name w2 \<noteq> None"
    by blast
  have m: "markRunning name planIds pid w = w2" using u by (simp add: markRunning_def)
  have g2: "good name w2" using g1 f by (simp add: good_def nameOk_cong [OF f(1)])
  have l2: "loadStackStatus name planIds w2 = loadStackStatus name planIds ?w1"
    using f(1) by (rule load_cong)
  show "good name (markRunning name planIds pid w)" using g2 m by simp
  show "executed (markRunning name planIds pid w) = executed w"
    using f m by (simp add: updatePlanStatus_frame)
  show "clock (markRunning name planIds pid w) = clock w + 3"
    using f m by (simp add: updatePlanStatus_frame)
  show "loadStackStatus name planIds (markRunning name planIds pid w) =
              (loadStackStatus name planIds w)
                \<lparr>planStatuses := assignMember (planStatuses (loadStackStatus name planIds w))
                                   pid (runningEntry pid (clock w)),
                 lastRunAt := Some (Suc (clock w))\<rparr>"
    using l2 m by (simp add: load_updatePlanStatus [OF ok] runningEntry_def)
  show "\<exists>st. updateStackPlanStatus name pid ?u ?w1 = (Inr st, markRunning name planIds pid w)"
    using u m by simp
qed

text \<open>The two writes that record the result of a plan.\<close>

lemma recordResult_facts:
  assumes "good name w3"
  shows "\<exists>st6 w6.
      (let w4 = updatePlanStatus name planIds pid (r_executionStatus result)
                  (r_errorMessage result) (r_exitCode result)
                  (Some (r_executionDurationMs result)) w3
       in updateStackPlanStatus name pid
            \<lparr>u_executionStatus = Some (r_executionStatus result),
             u_lastExecutedAt = Some (clock w4),
             u_executionDurationMs = Some (r_executionDurationMs result)\<rparr>
            (w4\<lparr>clock := Suc (clock w4)\<rparr>)) = (Inr st6, w6)
    \<and> good name w6 \<and> executed w6 = executed w3 \<and> clock w6 = clock w3 + 4
    \<and> loadStackStatus name planIds w6 =
         (loadStackStatus name planIds w3)
           \<lparr>planStatuses := assignMember (planStatuses (loadStackStatus name planIds w3)) pid
               \<lparr>pes_planId = pid, executionStatus = r_executionStatus result,
                lastExecutedAt = Some (clock w3),
                executionDurationMs = Some (r_executionDurationMs result),
                errorMessage = r_errorMessage result, exitCode = r_exitCode result\<rparr>,
            lastRunAt := Some (Suc (clock w3))\<rparr>"
proof -
  let ?w4 = "updatePlanStatus name planIds pid (r_executionStatus result)
                        (r_errorMessage result) (r_exitCode result)
                        (Some (r_executionDurationMs result)) w3"
  let ?w5 = "?w4\<lparr>clock := Suc (clock ?w4)\<rparr>"
  let ?u2 = "\<lparr>u_executionStatus = Some (r_executionStatus result),
                        u_lastExecutedAt = Some (clock ?w4),
                        u_executionDurationMs = Some (r_executionDurationMs result)\<rparr>"
  have ok3: "statusNameOk name w3" using assms by (simp add: good_def)
  have g5: "good name ?w5" using assms good_updatePlanStatus by simp
  then obtain stack5 where "loadStack name ?w5 = Some stack5" by (auto simp: good_def)
  from updateStackPlanStatus_ok [OF this, of pid ?u2]
  obtain st6 w6 where u6: "updateStackPlanStatus name pid ?u2 ?w5 = (Inr st6, w6)"
    and f6: "statusFiles w6 = statusFiles ?w5" "executed w6 = executed ?w5"
       "clock w6 = Suc (clock ?w5)" "loadStack name w6 \<noteq> None"
    by blast
  have g6: "good name w6" using g5 f6 by (simp add: good_def nameOk_cong [OF f6(1)])
  have l6: "loadStackStatus name planIds w6 = loadStackStatus name planIds ?w4"
    using load_cong [OF f6(1), of name planIds] by simp
  have e6: "executed w6 = executed w3" using f6 by (simp add: updatePlanStatus_frame)
  have c6: "clock w6 = clock w3 + 4" using f6 by (simp add: updatePlanStatus_frame)
  have l4: "loadStackStatus name planIds w6 =
         (loadStackStatus name planIds w3)
           \<lparr>planStatuses := assignMember (planStatuses (loadStackStatus name planIds w3)) pid
               \<lparr>pes_planId = pid, executionStatus = r_executionStatus result,
                lastExecutedAt = Some (clock w3),
                executionDurationMs = Some (r_executionDurationMs result),
                errorMessage = r_errorMessage result, exitCode = r_exitCode result\<rparr>,
            lastRunAt := Some (Suc (clock w3))\<rparr>"
    unfolding l6 by (rule load_updatePlanStatus [OF ok3])
  have "(let w4 = ?w4 in updateStackPlanStatus name pid
            \<lparr>u_executionStatus = Some (r_executionStatus result),
             u_lastExecutedAt = Some (clock w4),
             u_executionDurationMs = Some (r_executionDurationMs result)\<rparr>
            (w4\<lparr>clock := Suc (clock w4)\<rparr>)) = (Inr st6, w6)"
    unfolding Let_def by (rule u6)
  with g6 e6 c6 l4 show ?thesis by blast
qed

lemma assign_twice: "assignMember (assignMember m key a) key b = assignMember m key b"
  by (auto simp: assignMember_def)

lemma runPlan_unfold:
  assumes "good name w"
  shows "runPlan worker name planIds pid (C, res) w =
     (case executePlan worker pid (markRunning name planIds pid w) of
        (Inl e, w3) \<Rightarrow> (Inl e, w3)
      | (Inr result, w3) \<Rightarrow>
          (case (let w4 = updatePlanStatus name planIds pid (r_executionStatus result)
                            (r_errorMessage result) (r_exitCode result)
                            (Some (r_executionDurationMs result)) w3
                 in updateStackPlanStatus name pid
                      \<lparr>u_executionStatus = Some (r_executionStatus result),
                       u_lastExecutedAt = Some (clock w4),
                       u_executionDurationMs = Some (r_executionDurationMs result)\<rparr>
                      (w4\<lparr>clock := Suc (clock w4)\<rparr>)) of
             (Inl e, w6) \<Rightarrow> (Inl e, w6)
           | (Inr _, w6) \<Rightarrow>
               (Inr (if r_executionStatus result = completed then insert pid C else C,
                     res @ [result]), w6)))"
proof -
  from markRunning_facts(5) [OF assms, where pid = pid and planIds = planIds] obtain st where
    u: "updateStackPlanStatus name pid
            \<lparr>u_executionStatus = Some running, u_lastExecutedAt = None,
             u_executionDurationMs = None\<rparr>
            (updatePlanStatus name planIds pid running None None None w)
          = (Inr st, markRunning name planIds pid w)" by blast
  obtain r w3 where e: "executePlan worker pid (markRunning name planIds pid w) = (r, w3)"
    by (cases "executePlan worker pid (markRunning name planIds pid w)") auto
  show ?thesis
  proof (cases r)
    case (Inl e')
    with u e show ?thesis by (simp add: runPlan_def)
  next
    case (Inr result)
    with u e show ?thesis by (simp add: runPlan_def Let_def now_def)
  qed
qed

text \<open>A plan that is handed to \<open>executePlan\<close>: the call rejects, or it returns a result.\<close>

lemma runPlan_Inl:
  assumes g: "good name w"
    and run: "runPlan worker name planIds pid (C, res) w = (Inl e, w')"
  shows "\<exists>msg. e = ExecutePlanRejected msg
      \<and> worker (markRunning name planIds pid w) pid = SpawnThrows msg"
    and "w' = (markRunning name planIds pid w)\<lparr>executed := executed w @ [pid]\<rparr>"
proof -
  let ?w2 = "markRunning name planIds pid w"
  note M = markRunning_facts [OF g, where pid = pid and planIds = planIds]
  obtain r w3 where e: "executePlan worker pid ?w2 = (r, w3)"
    by (cases "executePlan worker pid ?w2") auto
  from executePlan_frame [OF e] have w3: "w3 = ?w2\<lparr>executed := executed w @ [pid]\<rparr>"
    using M(2) by simp
  have "\<exists>e'. r = Inl e'"
  proof (cases r)
    case (Inl e')
    then show ?thesis by simp
  next
    case (Inr result)
    have g3: "good name w3" using w3 M(1) by simp
    from recordResult_facts [OF g3, where pid = pid and result = result and planIds = planIds]
    obtain st6 w6 where "(let w4 = updatePlanStatus name planIds pid (r_executionStatus result)
                  (r_errorMessage result) (r_exitCode result)
                  (Some (r_executionDurationMs result)) w3
       in updateStackPlanStatus name pid
            \<lparr>u_executionStatus = Some (r_executionStatus result),
             u_lastExecutedAt = Some (clock w4),
             u_executionDurationMs = Some (r_executionDurationMs result)\<rparr>
            (w4\<lparr>clock := Suc (clock w4)\<rparr>)) = (Inr st6, w6)"
      by blast
    with run e Inr show ?thesis by (simp add: runPlan_unfold [OF g])
  qed
  then obtain e' where r: "r = Inl e'" by blast
  with run e have ee: "e' = e" "w' = w3" by (simp_all add: runPlan_unfold [OF g])
  from executePlan_Inl [of worker pid ?w2 e' w3] e r ee
  show "\<exists>msg. e = ExecutePlanRejected msg \<and> worker ?w2 pid = SpawnThrows msg" by simp
  from ee w3 show "w' = ?w2\<lparr>executed := executed w @ [pid]\<rparr>" by simp
qed

lemma runPlan_Inr:
  assumes g: "good name w"
    and run: "runPlan worker name planIds pid (C, res) w = (Inr st', w')"
  shows "\<exists>result. st' = (if r_executionStatus result = completed then insert pid C else C,
                          res @ [result])
          \<and> r_planId result = pid
          \<and> (r_executionStatus result = completed \<or> r_executionStatus result = failed)
          \<and> good name w' \<and> executed w' = executed w @ [pid] \<and> clock w' = clock w + 7
          \<and> loadStackStatus name planIds w' =
              (loadStackStatus name planIds w)
                \<lparr>planStatuses := assignMember (planStatuses (loadStackStatus name planIds w))
                                   pid (resultEntry result (clock w + 3)),
                 lastRunAt := Some (clock w + 4)\<rparr>"
proof -
  let ?w2 = "markRunning name planIds pid w"
  note M = markRunning_facts [OF g, where pid = pid and planIds = planIds]
  obtain r w3 where e: "executePlan worker pid ?w2 = (r, w3)"
    by (cases "executePlan worker pid ?w2") auto
  from executePlan_frame [OF e] have w3: "w3 = ?w2\<lparr>executed := executed w @ [pid]\<rparr>"
    using M(2) by simp
  from run e obtain result where r: "r = Inr result"
    by (cases r) (auto simp: runPlan_unfold [OF g])
  from executePlan_Inr [of worker pid ?w2 result w3] e r
  have rp: "r_planId result = pid"
    and rs: "r_executionStatus result = completed \<or> r_executionStatus result = failed" by auto
  have g3: "good name w3" using w3 M(1) by simp
  have c3: "clock w3 = clock w + 3" using w3 M(3) by simp
  have l3: "loadStackStatus name planIds w3 = loadStackStatus name planIds ?w2" using w3 by simp
  from recordResult_facts [OF g3, where pid = pid and result = result and planIds = planIds]
  obtain st6 w6 where u6: "(let w4 = updatePlanStatus name planIds pid (r_executionStatus result)
                  (r_errorMessage result) (r_exitCode result)
                  (Some (r_executionDurationMs result)) w3
       in updateStackPlanStatus name pid
            \<lparr>u_executionStatus = Some (r_executionStatus result),
             u_lastExecutedAt = Some (clock w4),
             u_executionDurationMs = Some (r_executionDurationMs result)\<rparr>
            (w4\<lparr>clock := Suc (clock w4)\<rparr>)) = (Inr st6, w6)"
    and g6: "good name w6" and e6: "executed w6 = executed w3" and c6: "clock w6 = clock w3 + 4"
    and l6: "loadStackStatus name planIds w6 =
         (loadStackStatus name planIds w3)
           \<lparr>planStatuses := assignMember (planStatuses (loadStackStatus name planIds w3)) pid
               \<lparr>pes_planId = pid, executionStatus = r_executionStatus result,
                lastExecutedAt = Some (clock w3),
                executionDurationMs = Some (r_executionDurationMs result),
                errorMessage = r_errorMessage result, exitCode = r_exitCode result\<rparr>,
            lastRunAt := Some (Suc (clock w3))\<rparr>"
    by blast
  from run e r u6 have st: "st' = (if r_executionStatus result = completed then insert pid C else C,
                          res @ [result])" and w': "w' = w6"
    by (simp_all add: runPlan_unfold [OF g])
  have ex: "executed w' = executed w @ [pid]" using w' e6 w3 by simp
  have cl: "clock w' = clock w + 7" using w' c6 c3 by simp
  have ld: "loadStackStatus name planIds w' =
              (loadStackStatus name planIds w)
                \<lparr>planStatuses := assignMember (planStatuses (loadStackStatus name planIds w))
                                   pid (resultEntry result (clock w + 3)),
                 lastRunAt := Some (clock w + 4)\<rparr>"
    unfolding w' l6 l3 M(4) c3 by (simp add: assign_twice resultEntry_def rp)
  from st rp rs g6 w' ex cl ld show ?thesis by blast
qed

lemma runPlan_returns:
  assumes g: "good name w"
    and nr: "\<forall>msg. worker (markRunning name planIds pid w) pid \<noteq> SpawnThrows msg"
  shows "\<exists>st' w'. runPlan worker name planIds pid (C, res) w = (Inr st', w')"
proof -
  obtain r w' where run: "runPlan worker name planIds pid (C, res) w = (r, w')"
    by (cases "runPlan worker name planIds pid (C, res) w") auto
  show ?thesis
  proof (cases r)
    case (Inl e)
    from runPlan_Inl(1) [OF g run [unfolded Inl]] nr show ?thesis by blast
  next
    case (Inr st')
    with run show ?thesis by blast
  qed
qed

lemma hasUnmet_iff:
  "hasUnmetDependencies stack C pid = (\<exists>d \<in> set (stackDeps stack pid). d \<notin> C)"
  by (auto simp add: hasUnmetDependencies_def stackDeps_def list_ex_iff split: option.splits)

text \<open>One plan of the loop.\<close>

lemma processPlan_effect:
  assumes g: "good name w"
    and np: "pid \<noteq> ''__proto__''"
    and run: "processPlan worker name stack planIds pid (C, res) w = (Inr (C', res'), w')"
  shows "planEffect name stack planIds pid C w C' w'"
proof -
  consider (seeded) "pid \<in> C"
    | (skip) "pid \<notin> C" "\<exists>d \<in> set (stackDeps stack pid). d \<notin> C"
    | (run) "pid \<notin> C" "\<forall>d \<in> set (stackDeps stack pid). d \<in> C"
    by blast
  then show ?thesis
  proof cases
    case seeded
    with g run show ?thesis by (auto simp add: processPlan_def planEffect_def)
  next
    case skip
    from skipPlan_effect [OF g, of planIds pid C res]
    obtain w0 where s: "skipPlan name planIds pid (C, res) w =
             (Inr (C, res @ [\<lparr>r_planId = pid, r_executionStatus = skipped, r_exitCode = None,
                          r_errorMessage = Some skipMessage, r_executionDurationMs = 0\<rparr>]), w0)"
      and g0: "good name w0" and e0: "executed w0 = executed w" and c0: "clock w0 = clock w + 3"
      and l0: "loadStackStatus name planIds w0 =
              (loadStackStatus name planIds w)
                \<lparr>planStatuses := assignMember (planStatuses (loadStackStatus name planIds w))
                                   pid (skippedEntry pid (clock w)),
                 lastRunAt := Some (Suc (clock w))\<rparr>"
      by blast
    have p: "processPlan worker name stack planIds pid (C, res) w = skipPlan name planIds pid (C, res) w"
      using skip by (simp add: processPlan_def hasUnmet_iff)
    from p s run have eq: "C' = C" "w' = w0" by simp_all
    have l: "loadStackStatus name planIds w' =
              (loadStackStatus name planIds w)
                \<lparr>planStatuses := (planStatuses (loadStackStatus name planIds w))
                                   (pid \<mapsto> skippedEntry pid (clock w)),
                 lastRunAt := Some (Suc (clock w))\<rparr>"
      using l0 eq by (simp add: assign_ordinary [OF np])
    have "planEffect name stack planIds pid C w C w'"
      using g0 e0 c0 l skip eq
      by (auto simp add: planEffect_def planStatusOf_def runStamped_def split: option.splits)
    with eq show ?thesis by simp
  next
    case run': run
    have p: "processPlan worker name stack planIds pid (C, res) w = runPlan worker name planIds pid (C, res) w"
      using run' by (simp add: processPlan_def hasUnmet_iff)
    from runPlan_Inr [OF g run [unfolded p]]
    obtain result where st: "(C', res') = (if r_executionStatus result = completed then insert pid C else C,
                          res @ [result])"
      and rs: "r_executionStatus result = completed \<or> r_executionStatus result = failed"
      and g': "good name w'" and e: "executed w' = executed w @ [pid]" and c: "clock w' = clock w + 7"
      and l0: "loadStackStatus name planIds w' =
              (loadStackStatus name planIds w)
                \<lparr>planStatuses := assignMember (planStatuses (loadStackStatus name planIds w))
                                   pid (resultEntry result (clock w + 3)),
                 lastRunAt := Some (clock w + 4)\<rparr>"
      by blast
    have l: "loadStackStatus name planIds w' =
              (loadStackStatus name planIds w)
                \<lparr>planStatuses := (planStatuses (loadStackStatus name planIds w))
                                   (pid \<mapsto> resultEntry result (clock w + 3)),
                 lastRunAt := Some (clock w + 4)\<rparr>"
      using l0 by (simp add: assign_ordinary [OF np])
    have ps: "planStatusOf name planIds w' pid = Some (resultEntry result (clock w + 3))"
      by (simp add: planStatusOf_def l)
    have C': "C' = (if r_executionStatus result = completed then insert pid C else C)"
      using st by simp
    show ?thesis
      unfolding planEffect_def
    proof (intro conjI)
      show "good name w'" by fact
      show "isRunning (loadStackStatus name planIds w') = isRunning (loadStackStatus name planIds w)"
        by (simp add: l)
      show "\<forall>q. q \<noteq> pid \<longrightarrow> planStatusOf name planIds w' q = planStatusOf name planIds w q"
        by (simp add: planStatusOf_def l)
      show "C \<subseteq> C'" using C' by auto
      show "C' \<subseteq> insert pid C" using C' by auto
      show "clock w \<le> clock w'" using c by simp
      show "\<forall>c0. runStamped name planIds c0 w \<longrightarrow> runStamped name planIds c0 w'"
        by (auto simp add: runStamped_def l c split: option.splits)
      show "pid \<in> C \<longrightarrow> w' = w \<and> C' = C" using run' by simp
      show "pid \<notin> C \<and> (\<exists>d \<in> set (stackDeps stack pid). d \<notin> C) \<longrightarrow>
          C' = C \<and> executed w' = executed w
          \<and> planStatusOf name planIds w' pid = Some (skippedEntry pid (clock w))"
        using run' by blast
      show "pid \<notin> C \<and> (\<forall>d \<in> set (stackDeps stack pid). d \<in> C) \<longrightarrow>
          executed w' = executed w @ [pid]
          \<and> (\<exists>result t. planStatusOf name planIds w' pid = Some (resultEntry result t)
                \<and> (r_executionStatus result = completed \<or> r_executionStatus result = failed)
                \<and> (pid \<in> C') = (r_executionStatus result = completed))"
        using e ps rs run' C' by auto
    qed
  qed
qed

lemma loopFrame_status:
  assumes g': "good name w'"
    and l: "loadStackStatus name planIds w' =
              (loadStackStatus name planIds w)
                \<lparr>planStatuses := assignMember (planStatuses (loadStackStatus name planIds w)) pid entry,
                 lastRunAt := Some t\<rparr>"
    and t: "clock w \<le> t" "t < clock w'"
    and e: "executed w' = executed w @ ys" "set ys \<subseteq> {pid}"
  shows "loopFrame name planIds [pid] w w'"
  unfolding loopFrame_def
proof (intro conjI)
  show "good name w'" by fact
  show "isRunning (loadStackStatus name planIds w') = isRunning (loadStackStatus name planIds w)"
    by (simp add: l)
  show "\<forall>q. q \<notin> set [pid] \<longrightarrow> planStatusOf name planIds w' q = planStatusOf name planIds w q"
    by (simp add: planStatusOf_def l assign_other)
  show "clock w \<le> clock w'" using t by simp
  show "\<forall>c0. runStamped name planIds c0 w \<longrightarrow> runStamped name planIds c0 w'"
    using t by (auto simp add: runStamped_def l split: option.splits)
  show "\<exists>ys. executed w' = executed w @ ys \<and> set ys \<subseteq> set [pid]"
    using e by auto
qed

lemma loopFrame_refl: "good name w \<Longrightarrow> loopFrame name planIds xs w w"
  by (simp add: loopFrame_def)

lemma loopFrame_mono: "loopFrame name planIds xs w w' \<Longrightarrow> set xs \<subseteq> set zs \<Longrightarrow> loopFrame name planIds zs w w'"
  unfolding loopFrame_def by blast

text \<open>Whatever the outcome, the loop body leaves the run flag and the other plans alone;
  it is left by an error only when \<open>executePlan\<close> rejects.\<close>

lemma processPlan_frame:
  assumes g: "good name w"
    and run: "processPlan worker name stack planIds pid (C, res) w = (r, w')"
  shows "loopFrame name planIds [pid] w w'"
    and "\<forall>e. r = Inl e \<longrightarrow> (\<exists>msg w0. e = ExecutePlanRejected msg \<and> worker w0 pid = SpawnThrows msg)"
proof -
  consider (seeded) "pid \<in> C"
    | (skip) "pid \<notin> C" "hasUnmetDependencies stack C pid"
    | (run) "pid \<notin> C" "\<not> hasUnmetDependencies stack C pid"
    by blast
  then have "loopFrame name planIds [pid] w w'
     \<and> (\<forall>e. r = Inl e \<longrightarrow> (\<exists>msg w0. e = ExecutePlanRejected msg \<and> worker w0 pid = SpawnThrows msg))"
  proof cases
    case seeded
    with g run show ?thesis by (auto simp add: processPlan_def loopFrame_refl)
  next
    case skip
    from skipPlan_effect [OF g, of planIds pid C res]
    obtain w0 where s: "skipPlan name planIds pid (C, res) w =
             (Inr (C, res @ [\<lparr>r_planId = pid, r_executionStatus = skipped, r_exitCode = None,
                          r_errorMessage = Some skipMessage, r_executionDurationMs = 0\<rparr>]), w0)"
      and g0: "good name w0" and e0: "executed w0 = executed w" and c0: "clock w0 = clock w + 3"
      and l0: "loadStackStatus name planIds w0 =
              (loadStackStatus name planIds w)
                \<lparr>planStatuses := assignMember (planStatuses (loadStackStatus name planIds w))
                                   pid (skippedEntry pid (clock w)),
                 lastRunAt := Some (Suc (clock w))\<rparr>"
      by blast
    have p: "processPlan worker name stack planIds pid (C, res) w = skipPlan name planIds pid (C, res) w"
      using skip by (simp add: processPlan_def)
    from p s run have eq: "w' = w0" and r: "\<forall>e. r \<noteq> Inl e" by auto
    have "loopFrame name planIds [pid] w w0"
      by (rule loopFrame_status [OF g0 l0, of "[]"]) (use c0 e0 in auto)
    with eq r show ?thesis by simp
  next
    case run': run
    have p: "processPlan worker name stack planIds pid (C, res) w = runPlan worker name planIds pid (C, res) w"
      using run' by (simp add: processPlan_def)
    show ?thesis
    proof (cases r)
      case (Inl e)
      note M = markRunning_facts [OF g, where pid = pid and planIds = planIds]
      from runPlan_Inl [OF g run [unfolded p Inl]]
      have rej: "\<exists>msg. e = ExecutePlanRejected msg \<and> worker (markRunning name planIds pid w) pid = SpawnThrows msg"
        and w': "w' = (markRunning name planIds pid w)\<lparr>executed := executed w @ [pid]\<rparr>" by auto
      have g': "good name w'" using w' M(1) by simp
      have l': "loadStackStatus name planIds w' =
              (loadStackStatus name planIds w)
                \<lparr>planStatuses := assignMember (planStatuses (loadStackStatus name planIds w))
                                   pid (runningEntry pid (clock w)),
                 lastRunAt := Some (Suc (clock w))\<rparr>"
        using w' M(4) by simp
      have "loopFrame name planIds [pid] w w'"
        by (rule loopFrame_status [OF g' l', of "[pid]"]) (use w' M(3) in auto)
      with rej Inl show ?thesis by blast
    next
      case (Inr st')
      from runPlan_Inr [OF g run [unfolded p Inr]]
      obtain result where g': "good name w'" and e: "executed w' = executed w @ [pid]"
        and c: "clock w' = clock w + 7"
        and l': "loadStackStatus name planIds w' =
              (loadStackStatus name planIds w)
                \<lparr>planStatuses := assignMember (planStatuses (loadStackStatus name planIds w))
                                   pid (resultEntry result (clock w + 3)),
                 lastRunAt := Some (clock w + 4)\<rparr>"
        by blast
      have "loopFrame name planIds [pid] w w'"
        by (rule loopFrame_status [OF g' l', of "[pid]"]) (use c e in auto)
      with Inr show ?thesis by simp
    qed
  qed
  then show "loopFrame name planIds [pid] w w'"
    and "\<forall>e. r = Inl e \<longrightarrow> (\<exists>msg w0. e = ExecutePlanRejected msg \<and> worker w0 pid = SpawnThrows msg)"
    by simp_all
qed

lemma processPlan_returns:
  assumes g: "good name w" and nr: "neverRejects worker"
  shows "\<exists>st' w'. processPlan worker name stack planIds pid (C, res) w = (Inr st', w')"
proof -
  obtain r w' where run: "processPlan worker name stack planIds pid (C, res) w = (r, w')"
    by (cases "processPlan worker name stack planIds pid (C, res) w") auto
  from processPlan_frame(2) [OF g run] nr have "\<forall>e. r \<noteq> Inl e"
    by (auto simp: neverRejects_def)
  then obtain st' where "r = Inr st'" by (cases r) auto
  with run show ?thesis by blast
qed

lemma statusIs_skippedEntry:
  "planStatusOf name planIds w q = Some (skippedEntry q t) \<Longrightarrow> \<not> statusIs name planIds w q completed"
  by (simp add: statusIs_def skippedEntry_def)

lemma statusIs_resultEntry:
  "planStatusOf name planIds w q = Some (resultEntry result t) \<Longrightarrow>
     statusIs name planIds w q st = (r_executionStatus result = st)"
  by (auto simp add: statusIs_def resultEntry_def)

text \<open>The whole loop.\<close>

lemma loopEffect_Nil: "good name w \<Longrightarrow> loopEffect name planIds [] C w C w"
  by (simp add: loopEffect_def)

lemma loopEffect_Cons:
  assumes ef: "planEffect name stack planIds p C w C1 w1"
    and lf: "loopEffect name planIds xs C1 w1 C' w'"
  shows "loopEffect name planIds (p # xs) C w C' w'"
proof -
  from ef have g1: "good name w1"
    and r1: "isRunning (loadStackStatus name planIds w1) = isRunning (loadStackStatus name planIds w)"
    and o1: "\<forall>q. q \<noteq> p \<longrightarrow> planStatusOf name planIds w1 q = planStatusOf name planIds w q"
    and s1: "C \<subseteq> C1" "C1 \<subseteq> insert p C"
    and c1: "clock w \<le> clock w1"
    and t1: "\<forall>c0. runStamped name planIds c0 w \<longrightarrow> runStamped name planIds c0 w1"
    and d1: "p \<in> C \<longrightarrow> w1 = w \<and> C1 = C"
    and k1: "p \<notin> C \<and> (\<exists>d \<in> set (stackDeps stack p). d \<notin> C) \<longrightarrow>
          C1 = C \<and> executed w1 = executed w
          \<and> planStatusOf name planIds w1 p = Some (skippedEntry p (clock w))"
    and n1: "p \<notin> C \<and> (\<forall>d \<in> set (stackDeps stack p). d \<in> C) \<longrightarrow>
          executed w1 = executed w @ [p]
          \<and> (\<exists>result t. planStatusOf name planIds w1 p = Some (resultEntry result t)
                \<and> (r_executionStatus result = completed \<or> r_executionStatus result = failed)
                \<and> (p \<in> C1) = (r_executionStatus result = completed))"
    unfolding planEffect_def by - (elim conjE, assumption)+
  from lf have g2: "good name w'"
    and r2: "isRunning (loadStackStatus name planIds w') = isRunning (loadStackStatus name planIds w1)"
    and o2: "\<forall>q. q \<notin> set xs \<or> q \<in> C1 \<longrightarrow> planStatusOf name planIds w' q = planStatusOf name planIds w1 q"
    and s2: "C1 \<subseteq> C'" "C' \<subseteq> C1 \<union> set xs"
    and c2: "clock w1 \<le> clock w'"
    and t2: "\<forall>c0. runStamped name planIds c0 w1 \<longrightarrow> runStamped name planIds c0 w'"
    and e2: "\<exists>ys. executed w' = executed w1 @ ys \<and> set ys \<subseteq> set xs - C1"
    and j2: "\<forall>q \<in> C'. q \<in> C1 \<or> statusIs name planIds w' q completed"
    and h2: "\<forall>q. q \<in> C' \<or> planStatusOf name planIds w' q = planStatusOf name planIds w1 q
             \<or> \<not> statusIs name planIds w' q completed"
    unfolding loopEffect_def by - (elim conjE, assumption)+
  have same_p: "p \<in> C \<Longrightarrow> planStatusOf name planIds w1 p = planStatusOf name planIds w p"
    using d1 by simp
  have A: "\<forall>q. q \<notin> set (p # xs) \<or> q \<in> C \<longrightarrow> planStatusOf name planIds w' q = planStatusOf name planIds w q"
  proof (intro allI impI)
    fix q assume q: "q \<notin> set (p # xs) \<or> q \<in> C"
    then have "q \<notin> set xs \<or> q \<in> C1" using s1 by auto
    then have "planStatusOf name planIds w' q = planStatusOf name planIds w1 q" using o2 by blast
    moreover have "planStatusOf name planIds w1 q = planStatusOf name planIds w q"
      using q o1 same_p by (cases "q = p") auto
    ultimately show "planStatusOf name planIds w' q = planStatusOf name planIds w q" by simp
  qed
  have E: "\<exists>ys. executed w' = executed w @ ys \<and> set ys \<subseteq> set (p # xs) - C"
  proof -
    from e2 obtain ys where ys: "executed w' = executed w1 @ ys" "set ys \<subseteq> set xs - C1" by blast
    have "\<exists>zs. executed w1 = executed w @ zs \<and> set zs \<subseteq> {p} - C"
    proof (cases "p \<in> C")
      case True
      with d1 show ?thesis by simp
    next
      case False
      show ?thesis
      proof (cases "\<exists>d \<in> set (stackDeps stack p). d \<notin> C")
        case True
        with False k1 show ?thesis by simp
      next
        case nd: False
        with False n1 have "executed w1 = executed w @ [p]" by blast
        with False show ?thesis by simp
      qed
    qed
    then obtain zs where zs: "executed w1 = executed w @ zs" "set zs \<subseteq> {p} - C" by blast
    have "executed w' = executed w @ (zs @ ys)" using ys zs by simp
    moreover have "set (zs @ ys) \<subseteq> set (p # xs) - C" using ys zs s1 by auto
    ultimately show ?thesis by blast
  qed
  have J: "\<forall>q \<in> C'. q \<in> C \<or> statusIs name planIds w' q completed"
  proof
    fix q assume "q \<in> C'"
    with j2 have "q \<in> C1 \<or> statusIs name planIds w' q completed" by blast
    then show "q \<in> C \<or> statusIs name planIds w' q completed"
    proof
      assume q1: "q \<in> C1"
      show ?thesis
      proof (cases "q \<in> C")
        case True
        then show ?thesis by simp
      next
        case False
        with q1 s1 have qp: "q = p" by auto
        with False have pc: "p \<notin> C" by simp
        have "\<forall>d \<in> set (stackDeps stack p). d \<in> C"
          using k1 pc q1 qp False by auto
        with n1 pc obtain result t where
          rt: "planStatusOf name planIds w1 p = Some (resultEntry result t)"
          "(p \<in> C1) = (r_executionStatus result = completed)" by blast
        then have "statusIs name planIds w1 p completed"
          using q1 qp by (simp add: statusIs_resultEntry)
        moreover have "planStatusOf name planIds w' p = planStatusOf name planIds w1 p"
          using o2 q1 qp by blast
        ultimately show ?thesis using qp by (simp add: statusIs_def)
      qed
    next
      assume "statusIs name planIds w' q completed"
      then show ?thesis by simp
    qed
  qed
  have H: "\<forall>q. q \<in> C' \<or> planStatusOf name planIds w' q = planStatusOf name planIds w q
             \<or> \<not> statusIs name planIds w' q completed"
  proof
    fix q
    show "q \<in> C' \<or> planStatusOf name planIds w' q = planStatusOf name planIds w q
             \<or> \<not> statusIs name planIds w' q completed"
    proof (cases "q \<in> C' \<or> \<not> statusIs name planIds w' q completed")
      case True
      then show ?thesis by blast
    next
      case False
      then have nq: "q \<notin> C'" and cq: "statusIs name planIds w' q completed" by auto
      from h2 nq cq have eq2: "planStatusOf name planIds w' q = planStatusOf name planIds w1 q" by blast
      have nq1: "q \<notin> C1" using nq s2 by auto
      have "planStatusOf name planIds w1 q = planStatusOf name planIds w q"
      proof (cases "q = p")
        case False
        with o1 show ?thesis by simp
      next
        case True
        have c1q: "statusIs name planIds w1 p completed"
          using cq eq2 True by (simp add: statusIs_def)
        show ?thesis
        proof (cases "p \<in> C")
          case True
          with nq1 s1 \<open>q = p\<close> show ?thesis by auto
        next
          case pc: False
          show ?thesis
          proof (cases "\<exists>d \<in> set (stackDeps stack p). d \<notin> C")
            case True
            with pc k1 have "planStatusOf name planIds w1 p = Some (skippedEntry p (clock w))" by simp
            with c1q show ?thesis using statusIs_skippedEntry by blast
          next
            case False
            with pc n1 obtain result t where
              rt: "planStatusOf name planIds w1 p = Some (resultEntry result t)"
              "(p \<in> C1) = (r_executionStatus result = completed)" by blast
            with c1q have "p \<in> C1" by (simp add: statusIs_resultEntry)
            with nq1 True show ?thesis by simp
          qed
        qed
      qed
      with eq2 show ?thesis by simp
    qed
  qed
  have R: "isRunning (loadStackStatus name planIds w') = isRunning (loadStackStatus name planIds w)"
    using r1 r2 by simp
  have S1: "C \<subseteq> C'" using s1 s2 by blast
  have S2: "C' \<subseteq> C \<union> set (p # xs)" using s1 s2 by auto
  have CL: "clock w \<le> clock w'" using c1 c2 by simp
  have T: "\<forall>c0. runStamped name planIds c0 w \<longrightarrow> runStamped name planIds c0 w'" using t1 t2 by blast
  show ?thesis
    unfolding loopEffect_def
    apply (intro conjI)
             apply (fact g2)
            apply (fact R)
           apply (fact A)
          apply (fact S1)
         apply (fact S2)
        apply (fact CL)
       apply (fact T)
      apply (fact E)
     apply (fact J)
    apply (fact H)
    done
qed

lemma processPlans_Cons_Inr:
  assumes "processPlans worker name stack planIds (p # xs) st w = (Inr st2, w2)"
  shows "\<exists>st1 w1. processPlan worker name stack planIds p st w = (Inr st1, w1)
           \<and> processPlans worker name stack planIds xs st1 w1 = (Inr st2, w2)"
  using assms by (auto split: prod.splits sum.splits)

lemma processPlans_effect:
  assumes "good name w"
    and "''__proto__'' \<notin> set xs"
    and "processPlans worker name stack planIds xs (C, res) w = (Inr (C', res'), w')"
  shows "loopEffect name planIds xs C w C' w'"
  using assms
proof (induction xs arbitrary: C res w)
  case Nil
  then show ?case by (simp add: loopEffect_Nil)
next
  case (Cons p xs)
  from processPlans_Cons_Inr [OF Cons.prems(3)]
  obtain st1 w1 where
    p1: "processPlan worker name stack planIds p (C, res) w = (Inr st1, w1)"
    and p2: "processPlans worker name stack planIds xs st1 w1 = (Inr (C', res'), w')"
    by blast
  obtain C1 res1 where st1: "st1 = (C1, res1)" by (cases st1)
  have np: "p \<noteq> ''__proto__''" and nx: "''__proto__'' \<notin> set xs" using Cons.prems(2) by auto
  from processPlan_effect [OF Cons.prems(1) np p1 [unfolded st1]]
  have ef: "planEffect name stack planIds p C w C1 w1" .
  then have g1: "good name w1" by (simp add: planEffect_def)
  from Cons.IH [OF g1 nx p2 [unfolded st1]]
  have lf: "loopEffect name planIds xs C1 w1 C' w'" .
  from loopEffect_Cons [OF ef lf] show ?case .
qed

lemma loopFrame_Cons:
  assumes f1: "loopFrame name planIds [p] w w1"
    and f2: "loopFrame name planIds xs w1 w'"
  shows "loopFrame name planIds (p # xs) w w'"
proof -
  from f1 have r1: "isRunning (loadStackStatus name planIds w1) = isRunning (loadStackStatus name planIds w)"
    and o1: "\<forall>q. q \<notin> set [p] \<longrightarrow> planStatusOf name planIds w1 q = planStatusOf name planIds w q"
    and c1: "clock w \<le> clock w1"
    and t1: "\<forall>c0. runStamped name planIds c0 w \<longrightarrow> runStamped name planIds c0 w1"
    and e1: "\<exists>ys. executed w1 = executed w @ ys \<and> set ys \<subseteq> set [p]"
    unfolding loopFrame_def by - (elim conjE, assumption)+
  from f2 have g2: "good name w'"
    and r2: "isRunning (loadStackStatus name planIds w') = isRunning (loadStackStatus name planIds w1)"
    and o2: "\<forall>q. q \<notin> set xs \<longrightarrow> planStatusOf name planIds w' q = planStatusOf name planIds w1 q"
    and c2: "clock w1 \<le> clock w'"
    and t2: "\<forall>c0. runStamped name planIds c0 w1 \<longrightarrow> runStamped name planIds c0 w'"
    and e2: "\<exists>ys. executed w' = executed w1 @ ys \<and> set ys \<subseteq> set xs"
    unfolding loopFrame_def by - (elim conjE, assumption)+
  from e1 obtain ys1 where ys1: "executed w1 = executed w @ ys1" "set ys1 \<subseteq> set [p]" by blast
  from e2 obtain ys2 where ys2: "executed w' = executed w1 @ ys2" "set ys2 \<subseteq> set xs" by blast
  have E: "\<exists>ys. executed w' = executed w @ ys \<and> set ys \<subseteq> set (p # xs)"
  proof -
    have "executed w' = executed w @ (ys1 @ ys2)" using ys1 ys2 by simp
    moreover have "set (ys1 @ ys2) \<subseteq> set (p # xs)" using ys1 ys2 by auto
    ultimately show ?thesis by blast
  qed
  have O: "\<forall>q. q \<notin> set (p # xs) \<longrightarrow> planStatusOf name planIds w' q = planStatusOf name planIds w q"
    using o1 o2 by simp
  have R: "isRunning (loadStackStatus name planIds w') = isRunning (loadStackStatus name planIds w)"
    using r1 r2 by simp
  have CL: "clock w \<le> clock w'" using c1 c2 by simp
  have T: "\<forall>c0. runStamped name planIds c0 w \<longrightarrow> runStamped name planIds c0 w'" using t1 t2 by blast
  show ?thesis
    unfolding loopFrame_def
    apply (intro conjI)
         apply (fact g2)
        apply (fact R)
       apply (fact O)
      apply (fact CL)
     apply (fact T)
    apply (fact E)
    done
qed

lemma loopFrameD:
  assumes "loopFrame name planIds xs w w'"
  shows "good name w'"
    and "isRunning (loadStackStatus name planIds w') = isRunning (loadStackStatus name planIds w)"
    and "\<forall>q. q \<notin> set xs \<longrightarrow> planStatusOf name planIds w' q = planStatusOf name planIds w q"
    and "clock w \<le> clock w'"
    and "\<forall>c0. runStamped name planIds c0 w \<longrightarrow> runStamped name planIds c0 w'"
    and "\<exists>ys. executed w' = executed w @ ys \<and> set ys \<subseteq> set xs"
  using assms unfolding loopFrame_def by - (elim conjE, assumption)+

text \<open>Whatever the outcome, the loop leaves the run flag and the plans outside the order
  alone; it is left by an error only when \<open>executePlan\<close> rejects.\<close>

lemma processPlans_frame:
  assumes "good name w"
    and "processPlans worker name stack planIds xs (C, res) w = (r, w')"
  shows "loopFrame name planIds xs w w'
     \<and> (\<forall>e. r = Inl e \<longrightarrow> (\<exists>msg w0 p. e = ExecutePlanRejected msg \<and> worker w0 p = SpawnThrows msg))"
  using assms
proof (induction xs arbitrary: C res w)
  case Nil
  then show ?case by (auto simp add: loopFrame_refl)
next
  case (Cons p xs)
  obtain r1 w1 where p1: "processPlan worker name stack planIds p (C, res) w = (r1, w1)"
    by (cases "processPlan worker name stack planIds p (C, res) w") auto
  note F = processPlan_frame [OF Cons.prems(1) p1]
  show ?case
  proof (cases r1)
    case (Inl e)
    with p1 Cons.prems(2) have eq: "r = Inl e" "w' = w1" by simp_all
    have "loopFrame name planIds (p # xs) w w1"
      by (rule loopFrame_mono [OF F(1)]) auto
    with F(2) Inl eq show ?thesis by blast
  next
    case (Inr st1)
    obtain C1 res1 where st1: "st1 = (C1, res1)" by (cases st1)
    from p1 Inr st1 Cons.prems(2)
    have p2: "processPlans worker name stack planIds xs (C1, res1) w1 = (r, w')" by simp
    have g1: "good name w1" using F(1) by (simp add: loopFrame_def)
    from Cons.IH [OF g1 p2]
    have f2: "loopFrame name planIds xs w1 w'"
      and e2: "\<forall>e. r = Inl e \<longrightarrow> (\<exists>msg w0 p. e = ExecutePlanRejected msg \<and> worker w0 p = SpawnThrows msg)"
      by simp_all
    from loopFrame_Cons [OF F(1) f2] e2 show ?thesis by simp
  qed
qed

lemma processPlans_returns:
  assumes g: "good name w" and nr: "neverRejects worker"
  shows "\<exists>st' w'. processPlans worker name stack planIds xs (C, res) w = (Inr st', w')"
proof -
  obtain r w' where run: "processPlans worker name stack planIds xs (C, res) w = (r, w')"
    by (cases "processPlans worker name stack planIds xs (C, res) w") auto
  from processPlans_frame [OF g run] nr have "\<forall>e. r \<noteq> Inl e"
    by (auto simp: neverRejects_def)
  then obtain st' where "r = Inr st'" by (cases r) auto
  with run show ?thesis by blast
qed

lemma processPlans_append:
  "processPlans worker name stack planIds (xs @ ys) st w =
     (case processPlans worker name stack planIds xs st w of
        (Inl e, w') \<Rightarrow> (Inl e, w')
      | (Inr st', w') \<Rightarrow> processPlans worker name stack planIds ys st' w')"
proof (induction xs arbitrary: st w)
  case Nil
  then show ?case by simp
next
  case (Cons p xs)
  show ?case
  proof (cases "processPlan worker name stack planIds p st w")
    case (Pair r w1)
    then show ?thesis using Cons.IH by (cases r) auto
  qed
qed

lemma processPlans_append_Inr:
  assumes "processPlans worker name stack planIds (xs @ ys) st w = (Inr st2, w2)"
  shows "\<exists>st1 w1. processPlans worker name stack planIds xs st w = (Inr st1, w1)
           \<and> processPlans worker name stack planIds ys st1 w1 = (Inr st2, w2)"
  using assms by (auto simp: processPlans_append split: prod.splits sum.splits)

lemma loopEffectD:
  assumes "loopEffect name planIds xs C w C' w'"
  shows "good name w'"
    and "isRunning (loadStackStatus name planIds w') = isRunning (loadStackStatus name planIds w)"
    and "\<forall>q. q \<notin> set xs \<or> q \<in> C \<longrightarrow> planStatusOf name planIds w' q = planStatusOf name planIds w q"
    and "C \<subseteq> C'" and "C' \<subseteq> C \<union> set xs"
    and "clock w \<le> clock w'"
    and "\<forall>c0. runStamped name planIds c0 w \<longrightarrow> runStamped name planIds c0 w'"
    and "\<exists>ys. executed w' = executed w @ ys \<and> set ys \<subseteq> set xs - C"
    and "\<forall>q \<in> C'. q \<in> C \<or> statusIs name planIds w' q completed"
    and "\<forall>q. q \<in> C' \<or> planStatusOf name planIds w' q = planStatusOf name planIds w q
             \<or> \<not> statusIs name planIds w' q completed"
  using assms unfolding loopEffect_def by - (elim conjE, assumption)+

lemma planEffectD:
  assumes "planEffect name stack planIds pid C w C' w'"
  shows "good name w'"
    and "isRunning (loadStackStatus name planIds w') = isRunning (loadStackStatus name planIds w)"
    and "\<forall>q. q \<noteq> pid \<longrightarrow> planStatusOf name planIds w' q = planStatusOf name planIds w q"
    and "C \<subseteq> C'" and "C' \<subseteq> insert pid C"
    and "clock w \<le> clock w'"
    and "\<forall>c0. runStamped name planIds c0 w \<longrightarrow> runStamped name planIds c0 w'"
    and "pid \<in> C \<longrightarrow> w' = w \<and> C' = C"
    and "pid \<notin> C \<and> (\<exists>d \<in> set (stackDeps stack pid). d \<notin> C) \<longrightarrow>
          C' = C \<and> executed w' = executed w
          \<and> planStatusOf name planIds w' pid = Some (skippedEntry pid (clock w))"
    and "pid \<notin> C \<and> (\<forall>d \<in> set (stackDeps stack pid). d \<in> C) \<longrightarrow>
          executed w' = executed w @ [pid]
          \<and> (\<exists>result t. planStatusOf name planIds w' pid = Some (resultEntry result t)
                \<and> (r_executionStatus result = completed \<or> r_executionStatus result = failed)
                \<and> (pid \<in> C') = (r_executionStatus result = completed))"
  using assms unfolding planEffect_def by - (elim conjE, assumption)+

text \<open>The plan at a given place of the order: what the loop does with it.\<close>

lemma loop_at:
  assumes g: "good name w"
    and np: "''__proto__'' \<notin> set (pre @ q # post)"
    and d: "distinct (pre @ q # post)"
    and q: "q \<notin> C"
    and run: "processPlans worker name stack planIds (pre @ q # post) (C, res) w = (Inr (C', res'), w')"
  shows "\<exists>ys. executed w' = executed w @ ys \<and> set ys \<subseteq> set (pre @ q # post) - C
      \<and> ((\<exists>d \<in> set (stackDeps stack q). d \<notin> C') \<longrightarrow>
            q \<notin> set ys \<and> q \<notin> C' \<and> (\<exists>t. planStatusOf name planIds w' q = Some (skippedEntry q t)))
      \<and> ((\<forall>d \<in> set (stackDeps stack q). d \<in> C' \<and> d \<notin> set (q # post)) \<longrightarrow>
            q \<in> set ys \<and> (\<exists>result t. planStatusOf name planIds w' q = Some (resultEntry result t)
                \<and> (r_executionStatus result = completed \<or> r_executionStatus result = failed)
                \<and> (q \<in> C') = (r_executionStatus result = completed)))"
proof -
  from processPlans_append_Inr [OF run]
  obtain st1 w1 where
    p1': "processPlans worker name stack planIds pre (C, res) w = (Inr st1, w1)"
    and rest: "processPlans worker name stack planIds (q # post) st1 w1 = (Inr (C', res'), w')"
    by blast
  obtain C1 res1 where st1: "st1 = (C1, res1)" by (cases st1)
  note p1 = p1' [unfolded st1]
  have np1: "''__proto__'' \<notin> set pre" and npq: "q \<noteq> ''__proto__''"
    and np3: "''__proto__'' \<notin> set post" using np by auto
  from processPlans_effect [OF g np1 p1]
  have l1: "loopEffect name planIds pre C w C1 w1" .
  note L1 = loopEffectD [OF l1]
  from processPlans_Cons_Inr [OF rest]
  obtain st2 w2 where
    p2': "processPlan worker name stack planIds q st1 w1 = (Inr st2, w2)"
    and p3': "processPlans worker name stack planIds post st2 w2 = (Inr (C', res'), w')"
    by blast
  obtain C2 res2 where st2: "st2 = (C2, res2)" by (cases st2)
  note p2 = p2' [unfolded st1 st2]
  from processPlan_effect [OF L1(1) npq p2]
  have l2: "planEffect name stack planIds q C1 w1 C2 w2" .
  note L2 = planEffectD [OF l2]
  define C3 where "C3 = C'"
  define w3 where "w3 = w'"
  have p3: "processPlans worker name stack planIds post (C2, res2) w2 = (Inr (C3, res'), w3)"
    using p3' st2 by (simp add: C3_def w3_def)
  from processPlans_effect [OF L2(1) np3 p3]
  have l3: "loopEffect name planIds post C2 w2 C3 w3" .
  note L3 = loopEffectD [OF l3]
  have eq: "C' = C3" "w' = w3" by (simp_all add: C3_def w3_def)
  have q1: "q \<notin> C1" using L1(5) q d by auto
  have qpost: "q \<notin> set post" using d by auto
  from L1(8) obtain ys1 where ys1: "executed w1 = executed w @ ys1" "set ys1 \<subseteq> set pre - C" by blast
  from L3(8) obtain ys3 where ys3: "executed w3 = executed w2 @ ys3" "set ys3 \<subseteq> set post - C2" by blast
  have same: "planStatusOf name planIds w3 q = planStatusOf name planIds w2 q"
    using L3(3) qpost by blast
  have qpre: "q \<notin> set ys1" using ys1 d by auto
  have qys3: "q \<notin> set ys3" using ys3 qpost by auto
  show ?thesis
  proof (cases "\<exists>d \<in> set (stackDeps stack q). d \<notin> C1")
    case True
    with L2(9) q1 have k: "C2 = C1" "executed w2 = executed w1"
      "planStatusOf name planIds w2 q = Some (skippedEntry q (clock w1))" by auto
    have ex: "executed w' = executed w @ (ys1 @ ys3)" using ys1 ys3 k eq by simp
    have sub: "set (ys1 @ ys3) \<subseteq> set (pre @ q # post) - C" using ys1 ys3 L1(4) L2(4) by auto
    have notin: "q \<notin> set (ys1 @ ys3)" using qpre qys3 by simp
    have qC': "q \<notin> C'" using eq L3(5) k q1 qpost by auto
    have sk: "\<exists>t. planStatusOf name planIds w' q = Some (skippedEntry q t)"
      using same k eq by auto
    have no: "\<not> (\<forall>d \<in> set (stackDeps stack q). d \<in> C' \<and> d \<notin> set (q # post))"
    proof
      assume a: "\<forall>d \<in> set (stackDeps stack q). d \<in> C' \<and> d \<notin> set (q # post)"
      from True obtain d where dd: "d \<in> set (stackDeps stack q)" "d \<notin> C1" by blast
      with a have "d \<in> C3" "d \<notin> set (q # post)" using eq by auto
      with L3(5) L2(5) dd show False by auto
    qed
    from ex sub notin qC' sk no show ?thesis by blast
  next
    case False
    then have all1: "\<forall>d \<in> set (stackDeps stack q). d \<in> C1" by blast
    with L2(10) q1 obtain result t where
      n: "executed w2 = executed w1 @ [q]"
      "planStatusOf name planIds w2 q = Some (resultEntry result t)"
      "r_executionStatus result = completed \<or> r_executionStatus result = failed"
      "(q \<in> C2) = (r_executionStatus result = completed)" by blast
    have ex: "executed w' = executed w @ (ys1 @ q # ys3)" using ys1 ys3 n eq by simp
    have sub: "set (ys1 @ q # ys3) \<subseteq> set (pre @ q # post) - C" using ys1 ys3 L1(4) L2(4) q by auto
    have isin: "q \<in> set (ys1 @ q # ys3)" by simp
    have qC: "(q \<in> C') = (r_executionStatus result = completed)"
      using n(4) eq L3(4) L3(5) qpost by auto
    have rs: "\<exists>result t. planStatusOf name planIds w' q = Some (resultEntry result t)
                \<and> (r_executionStatus result = completed \<or> r_executionStatus result = failed)
                \<and> (q \<in> C') = (r_executionStatus result = completed)"
      using same n eq qC by auto
    have no: "\<not> (\<exists>d \<in> set (stackDeps stack q). d \<notin> C')"
      using all1 L2(4) L3(4) eq by blast
    from ex sub isin rs no show ?thesis by blast
  qed
qed

lemma seed_fold:
  "q \<in> fold (\<lambda>sp acc.
             case planStatuses S (sp_planId sp) of
               Some planStatus \<Rightarrow>
                 (if executionStatus planStatus = completed then insert (sp_planId sp) acc else acc)
             | None \<Rightarrow> acc) sps acc0
   \<longleftrightarrow> q \<in> acc0 \<or> (q \<in> sp_planId ` set sps
         \<and> (\<exists>ps. planStatuses S q = Some ps \<and> executionStatus ps = completed))"
  by (induction sps arbitrary: acc0) (auto split: option.splits)

lemma seedCompleted_iff:
  "q \<in> seedCompleted sps S \<longleftrightarrow>
     q \<in> sp_planId ` set sps \<and> (\<exists>ps. planStatuses S q = Some ps \<and> executionStatus ps = completed)"
  unfolding seedCompleted_def by (simp add: seed_fold)

lemma executeStack_run:
  assumes st: "loadStack (o_stackName opts) w = Some stack"
    and nc: "\<not> hasCycle (getExecutionOrder (plans stack))"
    and nd: "\<not> o_dryRun opts"
  shows "executeStack worker opts w =
     (case runLoop worker opts stack w of
        (Inl e, w2) \<Rightarrow> (Inl e, w2)
      | (Inr (C, res), w2) \<Rightarrow>
          (Inr \<lparr>results = res, executionOrder = runOrder opts stack\<rparr>,
           setStackRunning (o_stackName opts) (planIdsOf stack) False w2))"
  using assms
  by (simp add: executeStack_def Let_def runLoop_def runOrder_def planIdsOf_def runSeed_def
      split: prod.splits sum.splits)

lemma runLoop_frame:
  assumes st: "loadStack (o_stackName opts) w = Some stack"
    and ok: "statusNameOk (o_stackName opts) w"
    and run: "runLoop worker opts stack w = (r, w2)"
  shows "loopFrame (o_stackName opts) (planIdsOf stack) (runOrder opts stack)
           (setStackRunning (o_stackName opts) (planIdsOf stack) True w) w2"
    and "\<forall>e. r = Inl e \<longrightarrow> (\<exists>msg w0 p. e = ExecutePlanRejected msg \<and> worker w0 p = SpawnThrows msg)"
proof -
  have "good (o_stackName opts) w" using st ok by (simp add: good_def)
  then have g1: "good (o_stackName opts) (setStackRunning (o_stackName opts) (planIdsOf stack) True w)"
    by (rule good_setStackRunning)
  from processPlans_frame [OF g1 run [unfolded runLoop_def]]
  show "loopFrame (o_stackName opts) (planIdsOf stack) (runOrder opts stack)
           (setStackRunning (o_stackName opts) (planIdsOf stack) True w) w2"
    and "\<forall>e. r = Inl e \<longrightarrow> (\<exists>msg w0 p. e = ExecutePlanRejected msg \<and> worker w0 p = SpawnThrows msg)"
    by simp_all
qed

lemma runLoop_returns:
  assumes st: "loadStack (o_stackName opts) w = Some stack"
    and ok: "statusNameOk (o_stackName opts) w"
    and nr: "neverRejects worker"
  shows "\<exists>C res w2. runLoop worker opts stack w = (Inr (C, res), w2)"
proof -
  have "good (o_stackName opts) w" using st ok by (simp add: good_def)
  then have g1: "good (o_stackName opts) (setStackRunning (o_stackName opts) (planIdsOf stack) True w)"
    by (rule good_setStackRunning)
  from processPlans_returns [OF g1 nr] show ?thesis
    unfolding runLoop_def by (metis surj_pair)
qed

text \<open>A run that returns: what its loop did.\<close>

lemma executeStack_Inr:
  assumes st: "loadStack (o_stackName opts) w = Some stack"
    and ok: "statusNameOk (o_stackName opts) w"
    and nd: "\<not> o_dryRun opts"
    and np: "''__proto__'' \<notin> set (runOrder opts stack)"
    and run: "executeStack worker opts w = (Inr r, w')"
  shows "\<exists>C' w2.
      processPlans worker (o_stackName opts) stack (planIdsOf stack) (runOrder opts stack)
         (runSeed (o_stackName opts) stack w, [])
         (setStackRunning (o_stackName opts) (planIdsOf stack) True w) = (Inr (C', results r), w2)
    \<and> loopEffect (o_stackName opts) (planIdsOf stack) (runOrder opts stack)
         (runSeed (o_stackName opts) stack w)
         (setStackRunning (o_stackName opts) (planIdsOf stack) True w) C' w2
    \<and> executionOrder r = runOrder opts stack
    \<and> w' = setStackRunning (o_stackName opts) (planIdsOf stack) False w2"
proof -
  let ?name = "o_stackName opts"
  let ?w1 = "setStackRunning ?name (planIdsOf stack) True w"
  have nc: "\<not> hasCycle (getExecutionOrder (plans stack))"
    using run st by (auto simp: executeStack_def Let_def split: if_splits)
  have "good ?name w" using st ok by (simp add: good_def)
  then have g1: "good ?name ?w1" by (rule good_setStackRunning)
  obtain lr w2 where l: "runLoop worker opts stack w = (lr, w2)"
    by (cases "runLoop worker opts stack w") auto
  from run executeStack_run [OF st nc nd, of worker] l
  obtain C' res' where lr: "lr = Inr (C', res')"
    and r: "r = \<lparr>results = res', executionOrder = runOrder opts stack\<rparr>"
    and w': "w' = setStackRunning ?name (planIdsOf stack) False w2"
    by (cases lr) (auto split: prod.splits)
  have p: "processPlans worker ?name stack (planIdsOf stack) (runOrder opts stack)
         (runSeed ?name stack w, []) ?w1 = (Inr (C', res'), w2)"
    using l lr by (simp add: runLoop_def)
  from processPlans_effect [OF g1 np p]
  have "loopEffect ?name (planIdsOf stack) (runOrder opts stack) (runSeed ?name stack w) ?w1 C' w2" .
  with p r w' show ?thesis by simp
qed

lemma indexOf_absent: "x \<notin> set xs \<Longrightarrow> indexOf xs x = -1"
  by (induction xs) (auto simp: Let_def)

lemma slice_last: "slice xs (-1) = (case xs of [] \<Rightarrow> [] | _ \<Rightarrow> [last xs])"
proof (cases "xs = []")
  case True
  then show ?thesis by (simp add: slice_def)
next
  case False
  then have "drop (length xs - 1) xs = [last xs]"
    by (metis append_butlast_last_id append_eq_conv_conj length_butlast)
  moreover have "nat (max (int (length xs) + - 1) 0) = length xs - 1"
    using False by (cases xs) auto
  ultimately show ?thesis using False by (cases xs) (simp_all add: slice_def Let_def)
qed

lemma orderFrom_absent:
  "f \<noteq> [] \<Longrightarrow> f \<notin> set xs \<Longrightarrow> orderFrom (Some f) xs = (case xs of [] \<Rightarrow> [] | _ \<Rightarrow> [last xs])"
  by (simp add: orderFrom_def indexOf_absent slice_last)

lemma executedIn_append: "executed w' = executed w @ ys \<Longrightarrow> executedIn w w' = ys"
  by (simp add: executedIn_def)

lemma executeStack_dry:
  assumes st: "loadStack (o_stackName opts) w = Some stack"
    and nc: "\<not> hasCycle (getExecutionOrder (plans stack))"
    and nd: "o_dryRun opts"
  shows "executeStack worker opts w = (Inr \<lparr>results = [], executionOrder = runOrder opts stack\<rparr>, w)"
  using assms by (simp add: executeStack_def Let_def runOrder_def)

lemmas run_defs = executeStack_def loadStack_def mkWorld_def mkWorldWith_def mkStack_def mkPlan_def
  orderFrom_def slice_def Let_def setStackRunning_def loadStackStatus_def createDefaultStatus_def
  fromEntries_def pendingStatus_def now_def saveStackStatus_def seedCompleted_def
  processPlan_def hasUnmetDependencies_def runPlan_def skipPlan_def updatePlanStatus_def
  updateStackPlanStatus_def saveStack_def applyUpdates_def executePlan_def okWorker_def
  failWorker_def throwWorker_def entryWith_def truthyMember_def assignMember_def
  objectPrototypeKeys_def

lemma order_AB:
  "getExecutionOrder [mkPlan ''A'' [], mkPlan ''B'' [''A'']] =
     \<lparr>sortedPlanIds = [''A'', ''B''], hasCycle = False, cycleNodes = None\<rparr>"
  by code_simp

lemma order_A:
  "getExecutionOrder [mkPlan ''A'' []] =
     \<lparr>sortedPlanIds = [''A''], hasCycle = False, cycleNodes = None\<rparr>"
  by code_simp

lemma order_A_B:
  "getExecutionOrder [mkPlan ''A'' [], mkPlan ''B'' []] =
     \<lparr>sortedPlanIds = [''A'', ''B''], hasCycle = False, cycleNodes = None\<rparr>"
  by code_simp

lemma order_self_cycle:
  "getExecutionOrder [mkPlan ''A'' [''A'']] =
     \<lparr>sortedPlanIds = [], hasCycle = True, cycleNodes = Some [''A'', ''A'']\<rparr>"
  by code_simp

lemma planStatusOf_setStackRunning:
  "statusNameOk name w \<Longrightarrow>
   planStatusOf name planIds (setStackRunning name planIds flag w) q = planStatusOf name planIds w q"
  by (simp add: planStatusOf_def load_setStackRunning)

lemma statusIs_setStackRunning:
  "statusNameOk name w \<Longrightarrow>
   statusIs name planIds (setStackRunning name planIds flag w) q st = statusIs name planIds w q st"
  by (simp add: statusIs_def planStatusOf_setStackRunning)

text \<open>What a non-dry run over an acyclic stack leaves untouched, whatever it returns.\<close>

lemma executeStack_frame:
  assumes st: "loadStack (o_stackName opts) w = Some stack"
    and ok: "statusNameOk (o_stackName opts) w"
    and nc: "\<not> hasCycle (getExecutionOrder (plans stack))"
    and nd: "\<not> o_dryRun opts"
    and run: "executeStack worker opts w = (r, w')"
  shows "(\<forall>q. q \<notin> set (runOrder opts stack) \<longrightarrow>
            planStatusOf (o_stackName opts) (planIdsOf stack) w' q
              = planStatusOf (o_stackName opts) (planIdsOf stack) w q)
     \<and> (\<exists>ys. executed w' = executed w @ ys \<and> set ys \<subseteq> set (runOrder opts stack))"
proof -
  let ?name = "o_stackName opts"
  let ?ids = "planIdsOf stack"
  let ?w1 = "setStackRunning ?name ?ids True w"
  obtain lr w2 where l: "runLoop worker opts stack w = (lr, w2)"
    by (cases "runLoop worker opts stack w") auto
  note F = loopFrameD [OF runLoop_frame(1) [OF st ok l]]
  have ok2: "statusNameOk ?name w2" using F(1) by (simp add: good_def)
  have w': "w' = w2 \<or> w' = setStackRunning ?name ?ids False w2"
    using run executeStack_run [OF st nc nd, of worker] l
    by (cases lr) (auto split: prod.splits)
  have ps: "planStatusOf ?name ?ids w' q = planStatusOf ?name ?ids w2 q" for q
    using w' planStatusOf_setStackRunning [OF ok2] by auto
  have ex: "executed w' = executed w2"
    using w' by (auto simp: setStackRunning_frame)
  have A: "\<forall>q. q \<notin> set (runOrder opts stack) \<longrightarrow>
            planStatusOf ?name ?ids w' q = planStatusOf ?name ?ids w q"
    using F(3) by (simp add: ps planStatusOf_setStackRunning [OF ok])
  from F(6) obtain ys where "executed w2 = executed ?w1 @ ys" "set ys \<subseteq> set (runOrder opts stack)"
    by blast
  then have B: "\<exists>ys. executed w' = executed w @ ys \<and> set ys \<subseteq> set (runOrder opts stack)"
    using ex by (simp add: setStackRunning_frame)
  from A B show ?thesis by simp
qed

text \<open>
  C10 (as amended). Let the stack file exist, let the status file, if there is one, carry
  the name of the stack, and let \<open>fromPlanId\<close> be a non-empty string that does not occur in
  the sorted order: \<open>indexOf\<close> is \<open>-1\<close> and \<open>slice(-1)\<close> keeps the last element. A stack
  with a dependency cycle is rejected with the cycle error and nothing is written. A stack
  without one is not rejected on account of \<open>fromPlanId\<close>. A dry run reports as execution
  order the last plan of the sorted order alone (the empty order when the sorted order is
  empty) and writes nothing. A non-dry run over an empty sorted order sets and clears the
  run flag and returns no result. A non-dry run over a non-empty sorted order is the loop
  body applied once, to the last plan of the sorted order, in the world that
  \<open>setStackRunning(true)\<close> leaves, followed by \<open>setStackRunning(false)\<close> unless
  \<open>executePlan\<close> rejects; whatever it returns, no other plan is handed to \<open>executePlan\<close> and
  the status entry of every other plan is the one before the run. An empty-string
  \<open>fromPlanId\<close> is falsy: for every stack and world the run is the run without
  \<open>fromPlanId\<close>, over the whole sorted order.
\<close>

theorem unknown_fromPlanId_runs_last_plan:
  assumes st: "loadStack (o_stackName opts) w = Some stack"
    and ok: "statusNameOk (o_stackName opts) w"
    and f: "o_fromPlanId opts = Some f" "f \<noteq> []"
      "f \<notin> set (sortedPlanIds (getExecutionOrder (plans stack)))"
  shows "(hasCycle (getExecutionOrder (plans stack)) \<longrightarrow>
            (\<exists>cyc. executeStack worker opts w = (Inl (DependencyCycle cyc), w)))
     \<and> (\<not> hasCycle (getExecutionOrder (plans stack)) \<and> o_dryRun opts \<longrightarrow>
            executeStack worker opts w =
              (Inr \<lparr>results = [],
                    executionOrder =
                      (case sortedPlanIds (getExecutionOrder (plans stack)) of
                         [] \<Rightarrow> []
                       | _ \<Rightarrow> [last (sortedPlanIds (getExecutionOrder (plans stack)))])\<rparr>, w))
     \<and> (\<not> hasCycle (getExecutionOrder (plans stack)) \<and> \<not> o_dryRun opts
          \<and> sortedPlanIds (getExecutionOrder (plans stack)) = [] \<longrightarrow>
            executeStack worker opts w =
              (Inr \<lparr>results = [], executionOrder = []\<rparr>,
               setStackRunning (o_stackName opts) (planIdsOf stack) False
                 (setStackRunning (o_stackName opts) (planIdsOf stack) True w)))
     \<and> (\<not> hasCycle (getExecutionOrder (plans stack)) \<and> \<not> o_dryRun opts
          \<and> sortedPlanIds (getExecutionOrder (plans stack)) \<noteq> [] \<longrightarrow>
            executeStack worker opts w =
              (case processPlan worker (o_stackName opts) stack (planIdsOf stack)
                      (last (sortedPlanIds (getExecutionOrder (plans stack))))
                      (runSeed (o_stackName opts) stack w, [])
                      (setStackRunning (o_stackName opts) (planIdsOf stack) True w) of
                 (Inl e, w2) \<Rightarrow> (Inl e, w2)
               | (Inr (C, res), w2) \<Rightarrow>
                   (Inr \<lparr>results = res,
                         executionOrder = [last (sortedPlanIds (getExecutionOrder (plans stack)))]\<rparr>,
                    setStackRunning (o_stackName opts) (planIdsOf stack) False w2))
          \<and> (\<forall>r w'. executeStack worker opts w = (r, w') \<longrightarrow>
                (\<forall>q. q \<noteq> last (sortedPlanIds (getExecutionOrder (plans stack))) \<longrightarrow>
                      planStatusOf (o_stackName opts) (planIdsOf stack) w' q
                        = planStatusOf (o_stackName opts) (planIdsOf stack) w q)
                \<and> (\<exists>ys. executed w' = executed w @ ys
                      \<and> set ys \<subseteq> {last (sortedPlanIds (getExecutionOrder (plans stack)))})))
     \<and> (\<forall>opts0 w0 xs. o_fromPlanId opts0 = Some [] \<longrightarrow>
            executeStack worker opts0 w0 = executeStack worker (opts0\<lparr>o_fromPlanId := None\<rparr>) w0
            \<and> orderFrom (o_fromPlanId opts0) xs = xs)"
proof (intro conjI impI allI)
  assume "hasCycle (getExecutionOrder (plans stack))"
  then show "\<exists>cyc. executeStack worker opts w = (Inl (DependencyCycle cyc), w)"
    using st by (simp add: executeStack_def Let_def)
next
  assume a: "\<not> hasCycle (getExecutionOrder (plans stack)) \<and> o_dryRun opts"
  have ord: "runOrder opts stack =
     (case sortedPlanIds (getExecutionOrder (plans stack)) of
            [] \<Rightarrow> [] | _ \<Rightarrow> [last (sortedPlanIds (getExecutionOrder (plans stack)))])"
    using f by (simp add: runOrder_def orderFrom_absent)
  from a executeStack_dry [OF st, of worker] ord
  show "executeStack worker opts w =
              (Inr \<lparr>results = [],
                    executionOrder =
                      (case sortedPlanIds (getExecutionOrder (plans stack)) of
                         [] \<Rightarrow> []
                       | _ \<Rightarrow> [last (sortedPlanIds (getExecutionOrder (plans stack)))])\<rparr>, w)"
    by simp
next
  assume a: "\<not> hasCycle (getExecutionOrder (plans stack)) \<and> \<not> o_dryRun opts
          \<and> sortedPlanIds (getExecutionOrder (plans stack)) = []"
  then have ord: "runOrder opts stack = []"
    using f by (simp add: runOrder_def orderFrom_absent)
  from a executeStack_run [OF st, of worker]
  show "executeStack worker opts w =
              (Inr \<lparr>results = [], executionOrder = []\<rparr>,
               setStackRunning (o_stackName opts) (planIdsOf stack) False
                 (setStackRunning (o_stackName opts) (planIdsOf stack) True w))"
    by (simp add: runLoop_def ord)
next
  assume a: "\<not> hasCycle (getExecutionOrder (plans stack)) \<and> \<not> o_dryRun opts
          \<and> sortedPlanIds (getExecutionOrder (plans stack)) \<noteq> []"
  let ?last = "last (sortedPlanIds (getExecutionOrder (plans stack)))"
  from a have ord: "runOrder opts stack = [?last]"
    using f by (simp add: runOrder_def orderFrom_absent split: list.splits)
  obtain r1 w1 where p: "processPlan worker (o_stackName opts) stack (planIdsOf stack) ?last
                      (runSeed (o_stackName opts) stack w, [])
                      (setStackRunning (o_stackName opts) (planIdsOf stack) True w) = (r1, w1)"
    by (cases "processPlan worker (o_stackName opts) stack (planIdsOf stack) ?last
                      (runSeed (o_stackName opts) stack w, [])
                      (setStackRunning (o_stackName opts) (planIdsOf stack) True w)") auto
  have "runLoop worker opts stack w = (r1, w1)"
    using p by (cases r1) (simp_all add: runLoop_def ord)
  with a executeStack_run [OF st, of worker] p ord
  show "executeStack worker opts w =
              (case processPlan worker (o_stackName opts) stack (planIdsOf stack) ?last
                      (runSeed (o_stackName opts) stack w, [])
                      (setStackRunning (o_stackName opts) (planIdsOf stack) True w) of
                 (Inl e, w2) \<Rightarrow> (Inl e, w2)
               | (Inr (C, res), w2) \<Rightarrow>
                   (Inr \<lparr>results = res, executionOrder = [?last]\<rparr>,
                    setStackRunning (o_stackName opts) (planIdsOf stack) False w2))"
    by (simp split: sum.splits prod.splits)
  fix r w' assume run: "executeStack worker opts w = (r, w')"
  from a have nc: "\<not> hasCycle (getExecutionOrder (plans stack))" and nd: "\<not> o_dryRun opts"
    by simp_all
  from executeStack_frame [OF st ok nc nd run] ord
  have F: "\<forall>q. q \<notin> set [?last] \<longrightarrow>
            planStatusOf (o_stackName opts) (planIdsOf stack) w' q
              = planStatusOf (o_stackName opts) (planIdsOf stack) w q"
    and E: "\<exists>ys. executed w' = executed w @ ys \<and> set ys \<subseteq> set [?last]"
    by simp_all
  { fix q assume "q \<noteq> ?last"
    with F show "planStatusOf (o_stackName opts) (planIdsOf stack) w' q
                        = planStatusOf (o_stackName opts) (planIdsOf stack) w q" by simp }
  from E show "\<exists>ys. executed w' = executed w @ ys \<and> set ys \<subseteq> {?last}" by simp
next
  fix opts0 :: ExecuteStackOptions and w0 :: World and xs :: "string list"
  assume e: "o_fromPlanId opts0 = Some []"
  then show "executeStack worker opts0 w0 = executeStack worker (opts0\<lparr>o_fromPlanId := None\<rparr>) w0"
    by (simp add: executeStack_def Let_def orderFrom_def split: option.splits prod.splits sum.splits)
  from e show "orderFrom (o_fromPlanId opts0) xs = xs"
    by (simp add: orderFrom_def)
qed

lemma neverRejects_okWorker: "neverRejects okWorker"
  by (simp add: neverRejects_def okWorker_def)

lemma neverRejects_failWorker: "neverRejects (failWorker bad)"
  by (simp add: neverRejects_def failWorker_def)

lemma run_from_Z:
  "case executeStack okWorker \<lparr>o_stackName = ''s'', o_dryRun = False, o_fromPlanId = Some ''Z''\<rparr>
          (mkWorld (mkStack ''s'' [mkPlan ''A'' [], mkPlan ''B'' []])) of
     (Inr r, w') \<Rightarrow> executionOrder r = [''B''] \<and> map r_planId (results r) = [''B'']
        \<and> executed w' = [''B'']
        \<and> statusIs ''s'' [''A'', ''B''] w' ''A'' pending
        \<and> statusIs ''s'' [''A'', ''B''] w' ''B'' completed
   | (Inl e, w') \<Rightarrow> False"
  using order_A_B by (simp add: run_defs statusIs_def planStatusOf_def)

theorem unknown_fromPlanId_runs_last_plan_witness:
  "(\<exists>r w'. executeStack okWorker \<lparr>o_stackName = ''s'', o_dryRun = False, o_fromPlanId = Some ''Z''\<rparr>
          (mkWorld (mkStack ''s'' [mkPlan ''A'' [], mkPlan ''B'' []])) = (Inr r, w')
      \<and> executionOrder r = [''B''] \<and> executed w' = [''B'']
      \<and> statusIs ''s'' [''A'', ''B''] w' ''B'' completed
      \<and> (\<forall>q. q \<noteq> ''B'' \<longrightarrow>
            planStatusOf ''s'' [''A'', ''B''] w' q
              = planStatusOf ''s'' [''A'', ''B''] (mkWorld (mkStack ''s'' [mkPlan ''A'' [], mkPlan ''B'' []])) q))
   \<and> executeStack okWorker \<lparr>o_stackName = ''s'', o_dryRun = False, o_fromPlanId = Some ''''\<rparr>
          (mkWorld (mkStack ''s'' [mkPlan ''A'' [], mkPlan ''B'' []]))
      = executeStack okWorker \<lparr>o_stackName = ''s'', o_dryRun = False, o_fromPlanId = None\<rparr>
          (mkWorld (mkStack ''s'' [mkPlan ''A'' [], mkPlan ''B'' []]))"
proof -
  let ?stack = "mkStack ''s'' [mkPlan ''A'' [], mkPlan ''B'' []]"
  let ?opts = "\<lparr>o_stackName = ''s'', o_dryRun = False, o_fromPlanId = Some ''Z''\<rparr>"
  let ?w = "mkWorld ?stack"
  have so: "getExecutionOrder (plans ?stack) = \<lparr>sortedPlanIds = [''A'', ''B''], hasCycle = False, cycleNodes = None\<rparr>"
    by (simp add: mkStack_def order_A_B)
  have 1: "loadStack (o_stackName ?opts) ?w = Some ?stack"
    by (simp add: loadStack_def mkWorld_def mkStack_def)
  have 2: "statusNameOk (o_stackName ?opts) ?w"
    by (simp add: statusNameOk_def mkWorld_def)
  have 3: "o_fromPlanId ?opts = Some ''Z''" "''Z'' \<noteq> []"
    "''Z'' \<notin> set (sortedPlanIds (getExecutionOrder (plans ?stack)))"
    by (simp_all add: so)
  have ids: "planIdsOf ?stack = [''A'', ''B'']" by (simp add: planIdsOf_def mkStack_def mkPlan_def)
  note T = unknown_fromPlanId_runs_last_plan [OF 1 2 3, of okWorker]
  obtain r w' where run: "executeStack okWorker ?opts ?w = (Inr r, w')"
    and c: "executionOrder r = [''B'']" "executed w' = [''B'']"
      "statusIs ''s'' [''A'', ''B''] w' ''B'' completed"
    using run_from_Z by (cases "executeStack okWorker ?opts ?w") (auto split: sum.splits)
  from T run have fr: "\<forall>q. q \<noteq> ''B'' \<longrightarrow>
            planStatusOf ''s'' [''A'', ''B''] w' q = planStatusOf ''s'' [''A'', ''B''] ?w q"
    by (simp add: so ids)
  from T have "\<forall>opts0 w0 xs. o_fromPlanId opts0 = Some [] \<longrightarrow>
            executeStack okWorker opts0 w0 = executeStack okWorker (opts0\<lparr>o_fromPlanId := None\<rparr>) w0
            \<and> orderFrom (o_fromPlanId opts0) xs = xs"
    by (elim conjE)
  from this [rule_format, of "\<lparr>o_stackName = ''s'', o_dryRun = False, o_fromPlanId = Some ''''\<rparr>" ?w "[]"]
  have em: "executeStack okWorker \<lparr>o_stackName = ''s'', o_dryRun = False, o_fromPlanId = Some ''''\<rparr> ?w
      = executeStack okWorker \<lparr>o_stackName = ''s'', o_dryRun = False, o_fromPlanId = None\<rparr> ?w"
    by simp
  from run c fr em show ?thesis by blast
qed

theorem empty_fromPlanId_counterexample:
  "'''' \<notin> set (sortedPlanIds (getExecutionOrder [mkPlan ''A'' [], mkPlan ''B'' [''A'']]))
   \<and> (case executeStack okWorker \<lparr>o_stackName = ''s'', o_dryRun = False, o_fromPlanId = Some ''''\<rparr>
             (mkWorld (mkStack ''s'' [mkPlan ''A'' [], mkPlan ''B'' [''A'']])) of
         (Inr r, w') \<Rightarrow> executionOrder r = [''A'', ''B''] \<and> executed w' = [''A'', ''B'']
       | (Inl e, w') \<Rightarrow> False)"
  using order_AB by (simp add: run_defs)

text \<open>
  C2 (as amended). The single-run guard is in the \<open>run\<close> command, not in \<open>executeStack\<close>.
  Let the stack file exist and let the status file, if there is one, carry the name of the
  stack. When the persisted \<open>isRunning\<close> flag is true, \<open>runCommand\<close> returns at once and
  leaves the durable state as it is: no plan is executed and no status is written.
  \<open>executeStack\<close> never consults the flag: whatever the flag, a non-dry run over an acyclic
  stack first writes \<open>isRunning = true\<close> to the status file of the stack, with no plan handed
  to \<open>executePlan\<close> yet and every plan's status entry as before, and runs the loop over the
  order from that state. When the loop runs to its end the run returns after
  \<open>setStackRunning(false)\<close>; when \<open>executePlan\<close> rejects, the run is left with that error in
  the state the loop had reached.
\<close>

theorem run_guard_in_runCommand:
  assumes st: "loadStack name w = Some stack"
    and ok: "statusNameOk name w"
  shows "(isRunning (loadStackStatus name (planIdsOf stack) w) \<longrightarrow>
            runCommand worker name options w = (AlreadyRunning, w))
     \<and> (\<not> hasCycle (getExecutionOrder (plans stack)) \<longrightarrow>
          (\<exists>s. statusFiles (setStackRunning name (planIdsOf stack) True w) name = Some s \<and> isRunning s)
          \<and> isRunning (loadStackStatus name (planIdsOf stack)
                         (setStackRunning name (planIdsOf stack) True w))
          \<and> executed (setStackRunning name (planIdsOf stack) True w) = executed w
          \<and> (\<forall>q. planStatusOf name (planIdsOf stack) (setStackRunning name (planIdsOf stack) True w) q
                  = planStatusOf name (planIdsOf stack) w q)
          \<and> executeStack worker \<lparr>o_stackName = name, o_dryRun = False, o_fromPlanId = fromId\<rparr> w =
              (case processPlans worker name stack (planIdsOf stack)
                      (orderFrom fromId (sortedPlanIds (getExecutionOrder (plans stack))))
                      (runSeed name stack w, [])
                      (setStackRunning name (planIdsOf stack) True w) of
                 (Inl e, w2) \<Rightarrow> (Inl e, w2)
               | (Inr (C, res), w2) \<Rightarrow>
                   (Inr \<lparr>results = res,
                         executionOrder =
                           orderFrom fromId (sortedPlanIds (getExecutionOrder (plans stack)))\<rparr>,
                    setStackRunning name (planIdsOf stack) False w2)))"
proof (intro conjI impI)
  assume "isRunning (loadStackStatus name (planIdsOf stack) w)"
  then show "runCommand worker name options w = (AlreadyRunning, w)"
    using st by (simp add: runCommand_def getStackExecutionStatus_def planIdsOf_def)
next
  assume nc: "\<not> hasCycle (getExecutionOrder (plans stack))"
  let ?ids = "planIdsOf stack"
  let ?w1 = "setStackRunning name ?ids True w"
  let ?opts = "\<lparr>o_stackName = name, o_dryRun = False, o_fromPlanId = fromId\<rparr>"
  have n: "ses_stackName (loadStackStatus name ?ids w) = name" using ok by (rule load_name)
  show "\<exists>s. statusFiles ?w1 name = Some s \<and> isRunning s"
    using n by (simp add: setStackRunning_def Let_def now_def saveStackStatus_def)
  show "isRunning (loadStackStatus name ?ids ?w1)"
    by (simp add: load_setStackRunning [OF ok])
  show "executed ?w1 = executed w"
    by (simp add: setStackRunning_frame)
  show "\<forall>q. planStatusOf name ?ids ?w1 q = planStatusOf name ?ids w q"
    by (simp add: planStatusOf_setStackRunning [OF ok])
  have st': "loadStack (o_stackName ?opts) w = Some stack" using st by simp
  have nd: "\<not> o_dryRun ?opts" by simp
  from executeStack_run [OF st' nc nd, of worker]
  show "executeStack worker ?opts w =
              (case processPlans worker name stack ?ids
                      (orderFrom fromId (sortedPlanIds (getExecutionOrder (plans stack))))
                      (runSeed name stack w, []) ?w1 of
                 (Inl e, w2) \<Rightarrow> (Inl e, w2)
               | (Inr (C, res), w2) \<Rightarrow>
                   (Inr \<lparr>results = res,
                         executionOrder =
                           orderFrom fromId (sortedPlanIds (getExecutionOrder (plans stack)))\<rparr>,
                    setStackRunning name ?ids False w2))"
    by (simp add: runLoop_def runOrder_def split: prod.splits sum.splits)
qed

theorem run_guard_in_runCommand_witness:
  "runCommand okWorker ''s'' \<lparr>opt_dryRun = False, opt_from = None, opt_reset = False\<rparr>
       (mkWorldWith (mkStack ''s'' [mkPlan ''A'' []]) [] True)
     = (AlreadyRunning, mkWorldWith (mkStack ''s'' [mkPlan ''A'' []]) [] True)
   \<and> isRunning (loadStackStatus ''s'' [''A'']
        (setStackRunning ''s'' [''A''] True (mkWorldWith (mkStack ''s'' [mkPlan ''A'' []]) [] True)))
   \<and> executed (setStackRunning ''s'' [''A''] True (mkWorldWith (mkStack ''s'' [mkPlan ''A'' []]) [] True)) = []
   \<and> (\<exists>C res w2.
        processPlans okWorker ''s'' (mkStack ''s'' [mkPlan ''A'' []]) [''A''] [''A'']
          (runSeed ''s'' (mkStack ''s'' [mkPlan ''A'' []]) (mkWorldWith (mkStack ''s'' [mkPlan ''A'' []]) [] True), [])
          (setStackRunning ''s'' [''A''] True (mkWorldWith (mkStack ''s'' [mkPlan ''A'' []]) [] True))
            = (Inr (C, res), w2)
        \<and> executeStack okWorker \<lparr>o_stackName = ''s'', o_dryRun = False, o_fromPlanId = None\<rparr>
            (mkWorldWith (mkStack ''s'' [mkPlan ''A'' []]) [] True) =
              (Inr \<lparr>results = res, executionOrder = [''A'']\<rparr>, setStackRunning ''s'' [''A''] False w2))"
proof -
  let ?stack = "mkStack ''s'' [mkPlan ''A'' []]"
  let ?w = "mkWorldWith ?stack [] True"
  have 1: "loadStack ''s'' ?w = Some ?stack"
    by (simp add: loadStack_def mkWorldWith_def mkStack_def)
  have 2: "statusNameOk ''s'' ?w"
    by (simp add: statusNameOk_def mkWorldWith_def mkStack_def)
  have 3: "isRunning (loadStackStatus ''s'' (planIdsOf ?stack) ?w)"
    by (simp add: loadStackStatus_def mkWorldWith_def mkStack_def)
  have 4: "\<not> hasCycle (getExecutionOrder (plans ?stack))"
    by (simp add: mkStack_def order_A)
  have 5: "planIdsOf ?stack = [''A'']" by (simp add: planIdsOf_def mkStack_def mkPlan_def)
  have 6: "orderFrom None (sortedPlanIds (getExecutionOrder (plans ?stack))) = [''A'']"
    by (simp add: mkStack_def order_A orderFrom_def)
  have 7: "executed ?w = []" by (simp add: mkWorldWith_def)
  have g: "good ''s'' (setStackRunning ''s'' [''A''] True ?w)"
    using 1 2 by (intro good_setStackRunning) (simp add: good_def)
  from processPlans_returns [OF g neverRejects_okWorker, of ?stack "[''A'']" "[''A'']" "runSeed ''s'' ?stack ?w" "[]"]
  obtain C res w2 where p: "processPlans okWorker ''s'' ?stack [''A''] [''A''] (runSeed ''s'' ?stack ?w, [])
          (setStackRunning ''s'' [''A''] True ?w) = (Inr (C, res), w2)"
    by auto
  note T = run_guard_in_runCommand [OF 1 2, of okWorker
      "\<lparr>opt_dryRun = False, opt_from = None, opt_reset = False\<rparr>" None, unfolded 5 6 7]
  from T 3 4 p show ?thesis
    unfolding 5 by auto
qed

theorem executeStack_has_no_guard_counterexample:
  "isRunning (loadStackStatus ''s'' [''A''] (mkWorldWith (mkStack ''s'' [mkPlan ''A'' []]) [] True))
   \<and> (case executeStack okWorker \<lparr>o_stackName = ''s'', o_dryRun = False, o_fromPlanId = None\<rparr>
             (mkWorldWith (mkStack ''s'' [mkPlan ''A'' []]) [] True) of
         (Inr r, w') \<Rightarrow> executed w' = [''A''] \<and> statusIs ''s'' [''A''] w' ''A'' completed
            \<and> statusIs ''s'' [''A''] (mkWorldWith (mkStack ''s'' [mkPlan ''A'' []]) [] True) ''A'' pending
       | (Inl e, w') \<Rightarrow> False)"
  using order_A by (simp add: run_defs statusIs_def planStatusOf_def)

text \<open>
  C3 (as amended). Let the stack file exist and let the status file, if there is one, carry
  the name of the stack. When the stack has a cycle a non-dry run throws before anything is
  written: the durable state, with its \<open>isRunning\<close> and \<open>lastRunAt\<close>, is the one before the
  call. Otherwise the run sets the flag and enters the loop. When the loop runs to its end
  the run returns in the state the loop left with \<open>isRunning\<close> set to false and nothing else
  changed: the run-end transition reads no clock and leaves \<open>lastRunAt\<close> as the loop left
  it, a clock reading taken during the run and before the loop was left. When
  \<open>executePlan\<close> rejects, the run is left with that error in the state the loop had
  reached, in which \<open>isRunning\<close> is still true. The loop runs to its end whenever no call of
  \<open>executePlan\<close> rejects.
\<close>

theorem run_end_clears_isRunning:
  assumes st: "loadStack (o_stackName opts) w = Some stack"
    and ok: "statusNameOk (o_stackName opts) w"
    and nd: "\<not> o_dryRun opts"
  shows "(hasCycle (getExecutionOrder (plans stack)) \<longrightarrow>
            (\<exists>cyc. executeStack worker opts w = (Inl (DependencyCycle cyc), w)))
     \<and> (\<not> hasCycle (getExecutionOrder (plans stack)) \<longrightarrow>
          (case runLoop worker opts stack w of
             (Inr (C, res), w2) \<Rightarrow>
               executeStack worker opts w =
                 (Inr \<lparr>results = res, executionOrder = runOrder opts stack\<rparr>,
                  setStackRunning (o_stackName opts) (planIdsOf stack) False w2)
               \<and> loadStackStatus (o_stackName opts) (planIdsOf stack)
                     (setStackRunning (o_stackName opts) (planIdsOf stack) False w2)
                   = (loadStackStatus (o_stackName opts) (planIdsOf stack) w2)\<lparr>isRunning := False\<rparr>
               \<and> clock (setStackRunning (o_stackName opts) (planIdsOf stack) False w2) = clock w2
               \<and> (\<exists>t. lastRunAt (loadStackStatus (o_stackName opts) (planIdsOf stack) w2) = Some t
                     \<and> clock w \<le> t \<and> t < clock w2)
           | (Inl e, w2) \<Rightarrow>
               executeStack worker opts w = (Inl e, w2)
               \<and> isRunning (loadStackStatus (o_stackName opts) (planIdsOf stack) w2)
               \<and> (\<exists>msg w0 p. e = ExecutePlanRejected msg \<and> worker w0 p = SpawnThrows msg)))
     \<and> (neverRejects worker \<longrightarrow> (\<exists>C res w2. runLoop worker opts stack w = (Inr (C, res), w2)))"
proof (intro conjI impI)
  assume "hasCycle (getExecutionOrder (plans stack))"
  then show "\<exists>cyc. executeStack worker opts w = (Inl (DependencyCycle cyc), w)"
    using st by (simp add: executeStack_def Let_def)
next
  assume nr: "neverRejects worker"
  from runLoop_returns [OF st ok nr]
  show "\<exists>C res w2. runLoop worker opts stack w = (Inr (C, res), w2)" .
next
  assume nc: "\<not> hasCycle (getExecutionOrder (plans stack))"
  let ?name = "o_stackName opts"
  let ?ids = "planIdsOf stack"
  let ?w1 = "setStackRunning ?name ?ids True w"
  obtain lr w2 where l: "runLoop worker opts stack w = (lr, w2)"
    by (cases "runLoop worker opts stack w") auto
  note F = loopFrameD [OF runLoop_frame(1) [OF st ok l]]
  note E = runLoop_frame(2) [OF st ok l]
  note X = executeStack_run [OF st nc nd, of worker]
  have r1: "isRunning (loadStackStatus ?name ?ids ?w1)"
    by (simp add: load_setStackRunning [OF ok])
  have "runStamped ?name ?ids (clock w) ?w1"
    by (simp add: runStamped_def load_setStackRunning [OF ok] setStackRunning_frame)
  with F(5) have "runStamped ?name ?ids (clock w) w2" by blast
  then have t: "\<exists>t. lastRunAt (loadStackStatus ?name ?ids w2) = Some t \<and> clock w \<le> t \<and> t < clock w2"
    by (auto simp: runStamped_def split: option.splits)
  have ok2: "statusNameOk ?name w2" using F(1) by (simp add: good_def)
  have f: "loadStackStatus ?name ?ids (setStackRunning ?name ?ids False w2)
      = (loadStackStatus ?name ?ids w2)\<lparr>isRunning := False\<rparr>"
    by (simp add: load_setStackRunning [OF ok2])
  have c: "clock (setStackRunning ?name ?ids False w2) = clock w2"
    by (simp add: setStackRunning_frame)
  have r2: "isRunning (loadStackStatus ?name ?ids w2)" using F(2) r1 by simp
  show "case runLoop worker opts stack w of
             (Inr (C, res), w2) \<Rightarrow>
               executeStack worker opts w =
                 (Inr \<lparr>results = res, executionOrder = runOrder opts stack\<rparr>,
                  setStackRunning ?name ?ids False w2)
               \<and> loadStackStatus ?name ?ids (setStackRunning ?name ?ids False w2)
                   = (loadStackStatus ?name ?ids w2)\<lparr>isRunning := False\<rparr>
               \<and> clock (setStackRunning ?name ?ids False w2) = clock w2
               \<and> (\<exists>t. lastRunAt (loadStackStatus ?name ?ids w2) = Some t
                     \<and> clock w \<le> t \<and> t < clock w2)
           | (Inl e, w2) \<Rightarrow>
               executeStack worker opts w = (Inl e, w2)
               \<and> isRunning (loadStackStatus ?name ?ids w2)
               \<and> (\<exists>msg w0 p. e = ExecutePlanRejected msg \<and> worker w0 p = SpawnThrows msg)"
  proof (cases lr)
    case (Inl e)
    with l X E r2 show ?thesis by simp
  next
    case (Inr st')
    obtain C res where "st' = (C, res)" by (cases st')
    with Inr l X t f c show ?thesis by simp
  qed
qed

lemma run_throw_A:
  "case executeStack (throwWorker ''A'') \<lparr>o_stackName = ''s'', o_dryRun = False, o_fromPlanId = None\<rparr>
          (mkWorld (mkStack ''s'' [mkPlan ''A'' []])) of
     (Inr r, w') \<Rightarrow> False
   | (Inl e, w') \<Rightarrow> e = ExecutePlanRejected ''spawn E2BIG''
        \<and> isRunning (loadStackStatus ''s'' [''A''] w')
        \<and> statusIs ''s'' [''A''] w' ''A'' running \<and> executed w' = [''A'']"
  using order_A by (simp add: run_defs statusIs_def planStatusOf_def)

theorem run_end_clears_isRunning_witness:
  "(\<exists>cyc. executeStack okWorker \<lparr>o_stackName = ''s'', o_dryRun = False, o_fromPlanId = None\<rparr>
        (mkWorld (mkStack ''s'' [mkPlan ''A'' [''A'']])) =
        (Inl (DependencyCycle cyc), mkWorld (mkStack ''s'' [mkPlan ''A'' [''A'']])))
   \<and> (\<exists>r w2 t. executeStack okWorker \<lparr>o_stackName = ''s'', o_dryRun = False, o_fromPlanId = None\<rparr>
        (mkWorld (mkStack ''s'' [mkPlan ''A'' []])) = (Inr r, setStackRunning ''s'' [''A''] False w2)
      \<and> \<not> isRunning (loadStackStatus ''s'' [''A''] (setStackRunning ''s'' [''A''] False w2))
      \<and> lastRunAt (loadStackStatus ''s'' [''A''] (setStackRunning ''s'' [''A''] False w2)) = Some t
      \<and> lastRunAt (loadStackStatus ''s'' [''A''] w2) = Some t
      \<and> t < clock w2 \<and> clock (setStackRunning ''s'' [''A''] False w2) = clock w2)
   \<and> (\<exists>e w2. executeStack (throwWorker ''A'') \<lparr>o_stackName = ''s'', o_dryRun = False, o_fromPlanId = None\<rparr>
        (mkWorld (mkStack ''s'' [mkPlan ''A'' []])) = (Inl e, w2)
      \<and> isRunning (loadStackStatus ''s'' [''A''] w2))"
proof -
  let ?opts = "\<lparr>o_stackName = ''s'', o_dryRun = False, o_fromPlanId = None\<rparr>"
  let ?cyc = "mkStack ''s'' [mkPlan ''A'' [''A'']]"
  let ?lin = "mkStack ''s'' [mkPlan ''A'' []]"
  have c1: "loadStack (o_stackName ?opts) (mkWorld ?cyc) = Some ?cyc"
    by (simp add: loadStack_def mkWorld_def mkStack_def)
  have c2: "statusNameOk (o_stackName ?opts) (mkWorld ?cyc)"
    by (simp add: statusNameOk_def mkWorld_def)
  have c3: "hasCycle (getExecutionOrder (plans ?cyc))"
    by (simp add: mkStack_def order_self_cycle)
  have l1: "loadStack (o_stackName ?opts) (mkWorld ?lin) = Some ?lin"
    by (simp add: loadStack_def mkWorld_def mkStack_def)
  have l2: "statusNameOk (o_stackName ?opts) (mkWorld ?lin)"
    by (simp add: statusNameOk_def mkWorld_def)
  have l3: "\<not> hasCycle (getExecutionOrder (plans ?lin))"
    by (simp add: mkStack_def order_A)
  have ids: "planIdsOf ?lin = [''A'']" by (simp add: planIdsOf_def mkStack_def mkPlan_def)
  have nd: "\<not> o_dryRun ?opts" by simp
  from run_end_clears_isRunning [OF c1 c2 nd, of okWorker] c3
  have a: "\<exists>cyc. executeStack okWorker ?opts (mkWorld ?cyc) = (Inl (DependencyCycle cyc), mkWorld ?cyc)"
    by blast
  note T = run_end_clears_isRunning [OF l1 l2 nd, of okWorker, unfolded ids]
  from T neverRejects_okWorker obtain C res w2 where
    rl: "runLoop okWorker ?opts ?lin (mkWorld ?lin) = (Inr (C, res), w2)" by blast
  from T l3 rl obtain t where
    e: "executeStack okWorker ?opts (mkWorld ?lin) =
         (Inr \<lparr>results = res, executionOrder = runOrder ?opts ?lin\<rparr>, setStackRunning ''s'' [''A''] False w2)"
    and f: "loadStackStatus ''s'' [''A''] (setStackRunning ''s'' [''A''] False w2)
              = (loadStackStatus ''s'' [''A''] w2)\<lparr>isRunning := False\<rparr>"
    and c: "clock (setStackRunning ''s'' [''A''] False w2) = clock w2"
    and t: "lastRunAt (loadStackStatus ''s'' [''A''] w2) = Some t" "t < clock w2"
    by auto
  have b: "\<exists>r w2 t. executeStack okWorker ?opts (mkWorld ?lin) = (Inr r, setStackRunning ''s'' [''A''] False w2)
      \<and> \<not> isRunning (loadStackStatus ''s'' [''A''] (setStackRunning ''s'' [''A''] False w2))
      \<and> lastRunAt (loadStackStatus ''s'' [''A''] (setStackRunning ''s'' [''A''] False w2)) = Some t
      \<and> lastRunAt (loadStackStatus ''s'' [''A''] w2) = Some t
      \<and> t < clock w2 \<and> clock (setStackRunning ''s'' [''A''] False w2) = clock w2"
    using e f c t by auto
  note U = run_end_clears_isRunning [OF l1 l2 nd, of "throwWorker ''A''", unfolded ids]
  obtain e' w3 where x: "executeStack (throwWorker ''A'') ?opts (mkWorld ?lin) = (Inl e', w3)"
    using run_throw_A
    by (cases "executeStack (throwWorker ''A'') ?opts (mkWorld ?lin)") (auto split: sum.splits)
  obtain lr w4 where rl': "runLoop (throwWorker ''A'') ?opts ?lin (mkWorld ?lin) = (lr, w4)"
    by (cases "runLoop (throwWorker ''A'') ?opts ?lin (mkWorld ?lin)") auto
  have d: "\<exists>e w2. executeStack (throwWorker ''A'') ?opts (mkWorld ?lin) = (Inl e, w2)
      \<and> isRunning (loadStackStatus ''s'' [''A''] w2)"
  proof (cases lr)
    case (Inl e'')
    with U l3 rl' show ?thesis by simp
  next
    case (Inr st')
    obtain C' res' where "st' = (C', res')" by (cases st')
    with U l3 rl' Inr x show ?thesis by simp
  qed
  from a b d show ?thesis by blast
qed

theorem run_end_lastRunAt_counterexample:
  "(case executeStack okWorker \<lparr>o_stackName = ''s'', o_dryRun = False, o_fromPlanId = None\<rparr>
             (mkWorld (mkStack ''s'' [mkPlan ''A'' []])) of
         (Inr r, w') \<Rightarrow>
            lastRunAt (loadStackStatus ''s'' [''A''] w') = Some 5 \<and> clock w' = 8
            \<and> map_option (\<lambda>ps. (executionStatus ps, lastExecutedAt ps)) (planStatusOf ''s'' [''A''] w' ''A'')
                 = Some (completed, Some 4)
            \<and> map_option updatedAt (stackFiles w' ''s'') = Some 7
       | (Inl e, w') \<Rightarrow> False)
   \<and> (case executeStack okWorker \<lparr>o_stackName = ''s'', o_dryRun = False, o_fromPlanId = None\<rparr>
             (mkWorldWith (mkStack ''s'' [mkPlan ''A'' [''A'']]) [] True) of
         (Inr r, w') \<Rightarrow> False
       | (Inl e, w') \<Rightarrow> e = DependencyCycle (Some [''A'', ''A''])
            \<and> isRunning (loadStackStatus ''s'' [''A''] w')
            \<and> lastRunAt (loadStackStatus ''s'' [''A''] w') = None)"
  using order_A order_self_cycle by (simp add: run_defs planStatusOf_def)

lemma update_absent: "k \<notin> fst ` set al \<Longrightarrow> AList.update k v al = al @ [(k, v)]"
  by (induction al) auto

lemma update_present_keys: "k \<in> fst ` set al \<Longrightarrow> map fst (AList.update k v al) = map fst al"
  by (induction al) auto

lemma degreeOf_update: "degreeOf (AList.update k v al) t = (if t = k then v else degreeOf al t)"
  by (simp add: degreeOf_def update_conv')

text \<open>The \<open>forEach\<close> over the dependents of the node taken from the queue.\<close>

lemma fold_relax:
  "\<exists>inDegree' pushed. fold relax ds (inDegree, queue) = (inDegree', queue @ pushed)
     \<and> (\<forall>t. degreeOf inDegree' t = degreeOf inDegree t - int (count_list ds t))
     \<and> distinct pushed
     \<and> set pushed = {t \<in> set ds. 1 \<le> degreeOf inDegree t \<and> degreeOf inDegree t \<le> int (count_list ds t)}"
proof (induction ds arbitrary: inDegree queue)
  case Nil
  then show ?case by simp
next
  case (Cons d ds)
  let ?cur = "degreeOf inDegree d"
  let ?deg1 = "AList.update d (?cur - 1) inDegree"
  let ?now = "if ?cur - 1 = 0 then [d] else []"
  have step: "relax d (inDegree, queue) = (?deg1, queue @ ?now)"
    by (simp add: relax_def Let_def)
  from Cons.IH [of ?deg1 "queue @ ?now"]
  obtain inDegree' pushed where
    f: "fold relax ds (?deg1, queue @ ?now) = (inDegree', (queue @ ?now) @ pushed)"
    and dg: "\<forall>t. degreeOf inDegree' t = degreeOf ?deg1 t - int (count_list ds t)"
    and di: "distinct pushed"
    and se: "set pushed = {t \<in> set ds. 1 \<le> degreeOf ?deg1 t \<and> degreeOf ?deg1 t \<le> int (count_list ds t)}"
    by blast
  have f': "fold relax (d # ds) (inDegree, queue) = (inDegree', queue @ (?now @ pushed))"
    using step f by simp
  have dg': "\<forall>t. degreeOf inDegree' t = degreeOf inDegree t - int (count_list (d # ds) t)"
    using dg by (auto simp: degreeOf_update)
  have dnot: "?cur - 1 = 0 \<Longrightarrow> d \<notin> set pushed"
    using se by (simp add: degreeOf_update)
  have di': "distinct (?now @ pushed)"
    using di dnot by auto
  have se': "set (?now @ pushed) =
     {t \<in> set (d # ds). 1 \<le> degreeOf inDegree t \<and> degreeOf inDegree t \<le> int (count_list (d # ds) t)}"
  proof (intro set_eqI iffI)
    fix t assume "t \<in> set (?now @ pushed)"
    then consider (a) "t = d" "?cur - 1 = 0" | (b) "t \<in> set pushed" by (auto split: if_splits)
    then show "t \<in> {t \<in> set (d # ds). 1 \<le> degreeOf inDegree t \<and> degreeOf inDegree t \<le> int (count_list (d # ds) t)}"
    proof cases
      case a
      then show ?thesis by simp
    next
      case b
      with se have "t \<in> set ds" "1 \<le> degreeOf ?deg1 t" "degreeOf ?deg1 t \<le> int (count_list ds t)"
        by auto
      then show ?thesis by (auto simp: degreeOf_update split: if_splits)
    qed
  next
    fix t assume "t \<in> {t \<in> set (d # ds). 1 \<le> degreeOf inDegree t \<and> degreeOf inDegree t \<le> int (count_list (d # ds) t)}"
    then have t: "t \<in> set (d # ds)" "1 \<le> degreeOf inDegree t"
      "degreeOf inDegree t \<le> int (count_list (d # ds) t)" by auto
    show "t \<in> set (?now @ pushed)"
    proof (cases "t = d")
      case True
      show ?thesis
      proof (cases "?cur = 1")
        case True
        with \<open>t = d\<close> show ?thesis by simp
      next
        case False
        with t True have "1 \<le> ?cur - 1" "?cur - 1 \<le> int (count_list ds d)" by auto
        moreover from this have "d \<in> set ds"
          by (metis count_list_0_iff int_ops(1) not_one_le_zero order_trans)
        ultimately have "d \<in> set pushed" using se by (simp add: degreeOf_update)
        with True show ?thesis by simp
      qed
    next
      case False
      with t have "t \<in> set ds" "1 \<le> degreeOf ?deg1 t" "degreeOf ?deg1 t \<le> int (count_list ds t)"
        by (auto simp: degreeOf_update)
      with se show ?thesis by simp
    qed
  qed
  from f' dg' di' se' show ?case by blast
qed

lemma fold_relax_queue: "\<exists>pushed. snd (fold relax ds (inDegree, queue)) = queue @ pushed"
  using fold_relax [of ds inDegree queue] by auto

text \<open>First in, first out: what is in the queue is emitted in queue order before anything
  that enters the queue later.\<close>

lemma kahn_loop_fifo:
  "\<exists>rest. kahn_loop graph queue inDegree done_ids = done_ids @ filter (\<lambda>n. n \<noteq> []) queue @ rest"
proof (induction graph queue inDegree done_ids rule: kahn_loop.induct)
  case (1 graph inDegree done_ids)
  then show ?case by simp
next
  case (2 graph nodeId queue inDegree done_ids)
  show ?case
  proof (cases "nodeId = []")
    case True
    with 2(1) show ?thesis by simp
  next
    case ne: False
    show ?thesis
    proof (cases "map_of graph nodeId")
      case None
      with 2(2) [OF ne None] ne show ?thesis by auto
    next
      case (Some node)
      obtain inDegree' queue' where fr: "fold relax (dependentPlanIds node) (inDegree, queue) = (inDegree', queue')"
        by (cases "fold relax (dependentPlanIds node) (inDegree, queue)") auto
      from fold_relax_queue [of "dependentPlanIds node" inDegree queue] fr
      obtain pushed where q': "queue' = queue @ pushed" by auto
      from 2(3) [OF ne Some fr [symmetric]]
      obtain rest where "kahn_loop graph queue' inDegree' (done_ids @ [nodeId]) =
          (done_ids @ [nodeId]) @ filter (\<lambda>n. n \<noteq> []) queue' @ rest" by blast
      then have "kahn_loop graph (nodeId # queue) inDegree done_ids =
          done_ids @ filter (\<lambda>n. n \<noteq> []) (nodeId # queue) @ (filter (\<lambda>n. n \<noteq> []) pushed @ rest)"
        using ne Some fr q' by simp
      then show ?thesis by blast
    qed
  qed
qed

lemma kahnInvD:
  assumes "kahnInv graph queue inDegree done_ids"
  shows "distinct (done_ids @ queue)"
    and "set (done_ids @ queue) \<subseteq> fst ` set graph"
    and "\<forall>t \<in> fst ` set graph.
           degreeOf inDegree t = int (length (filter (\<lambda>d. d \<notin> set done_ids) (depsOf graph t)))"
    and "\<forall>t \<in> set (done_ids @ queue). degreeOf inDegree t = 0"
    and "\<forall>t \<in> fst ` set graph. degreeOf inDegree t = 0 \<and> t \<noteq> [] \<longrightarrow> t \<in> set (done_ids @ queue)"
    and "\<forall>pre t post. done_ids = pre @ t # post \<longrightarrow> set (depsOf graph t) \<subseteq> set pre"
    and "[] \<notin> set done_ids"
  using assms unfolding kahnInv_def by - (elim conjE, assumption)+

lemma consistentGraphD:
  assumes "consistentGraph graph"
  shows "distinct (map fst graph)"
    and "\<forall>(k, node) \<in> set graph. planId node = k"
    and "\<forall>d \<in> fst ` set graph. \<forall>t.
           count_list (dependentsOf graph d) t =
             (if t \<in> fst ` set graph then count_list (depsOf graph t) d else 0)"
  using assms unfolding consistentGraph_def by - (elim conjE, assumption)+

lemma filter_insert_count:
  "n \<notin> A \<Longrightarrow> length (filter (\<lambda>d. d \<notin> insert n A) xs) + count_list xs n
       = length (filter (\<lambda>d. d \<notin> A) xs)"
  by (induction xs) auto

lemma length_filter_0: "(length (filter P xs) = 0) = (\<forall>x \<in> set xs. \<not> P x)"
  by (induction xs) auto

lemma count_list_pos: "(0 < count_list xs x) = (x \<in> set xs)"
  by (induction xs) auto

lemma kahn_drop_empty:
  "kahnInv graph ([] # queue) inDegree done_ids \<Longrightarrow> kahnInv graph queue inDegree done_ids"
  unfolding kahnInv_def by auto

lemma kahn_step:
  assumes cg: "consistentGraph graph"
    and inv: "kahnInv graph (n # queue) inDegree done_ids"
    and ne: "n \<noteq> []"
    and node: "map_of graph n = Some node"
    and fr: "fold relax (dependentPlanIds node) (inDegree, queue) = (inDegree', queue')"
  shows "kahnInv graph queue' inDegree' (done_ids @ [n])"
proof -
  note I = kahnInvD [OF inv]
  note G = consistentGraphD [OF cg]
  let ?K = "fst ` set graph"
  let ?ds = "dependentPlanIds node"
  let ?left = "\<lambda>A t. int (length (filter (\<lambda>d. d \<notin> A) (depsOf graph t)))"
  have nK: "n \<in> ?K" using I(2) by auto
  have nout: "n \<notin> set done_ids" and nq: "n \<notin> set queue" using I(1) by auto
  have ds: "?ds = dependentsOf graph n" using node by (simp add: dependentsOf_def)
  have cnt: "count_list ?ds t = (if t \<in> ?K then count_list (depsOf graph t) n else 0)" for t
    using G(3) [rule_format, OF nK, of t] ds by simp
  have dsK: "set ?ds \<subseteq> ?K"
  proof
    fix t assume "t \<in> set ?ds"
    then have "0 < count_list ?ds t" by (simp add: count_list_pos)
    then show "t \<in> ?K" using cnt [of t] by (auto split: if_splits)
  qed
  from fold_relax [of ?ds inDegree queue] fr obtain pushed where
    q': "queue' = queue @ pushed"
    and dg: "\<forall>t. degreeOf inDegree' t = degreeOf inDegree t - int (count_list ?ds t)"
    and dp: "distinct pushed"
    and sp: "set pushed = {t \<in> set ?ds. 1 \<le> degreeOf inDegree t \<and> degreeOf inDegree t \<le> int (count_list ?ds t)}"
    by auto
  have split: "?left (set (done_ids @ [n])) t + int (count_list (depsOf graph t) n) = ?left (set done_ids) t" for t
    using filter_insert_count [OF nout, of "depsOf graph t"] by simp
  have zero_deps: "degreeOf inDegree t = 0 \<Longrightarrow> t \<in> ?K \<Longrightarrow> set (depsOf graph t) \<subseteq> set done_ids" for t
  proof -
    assume z: "degreeOf inDegree t = 0" and t: "t \<in> ?K"
    with I(3) have "length (filter (\<lambda>d. d \<notin> set done_ids) (depsOf graph t)) = 0" by auto
    then show ?thesis by (auto simp: filter_empty_conv)
  qed
  have zero_cnt: "degreeOf inDegree t = 0 \<Longrightarrow> t \<in> ?K \<Longrightarrow> count_list ?ds t = 0" for t
  proof -
    assume z: "degreeOf inDegree t = 0" and t: "t \<in> ?K"
    from zero_deps [OF z t] nout have "n \<notin> set (depsOf graph t)" by auto
    then have "count_list (depsOf graph t) n = 0" by (simp add: count_list_0_iff)
    with cnt [of t] t show ?thesis by simp
  qed
  have old0: "\<forall>t \<in> set (done_ids @ n # queue). degreeOf inDegree' t = 0"
  proof
    fix t assume t: "t \<in> set (done_ids @ n # queue)"
    then have z: "degreeOf inDegree t = 0" and tK: "t \<in> ?K" using I(4) I(2) by auto
    from zero_cnt [OF z tK] z dg show "degreeOf inDegree' t = 0" by simp
  qed
  have pushed_info: "\<forall>t \<in> set pushed. t \<in> ?K \<and> 1 \<le> degreeOf inDegree t \<and> degreeOf inDegree' t = 0"
  proof
    fix t assume "t \<in> set pushed"
    with sp have td: "t \<in> set ?ds" and lo: "1 \<le> degreeOf inDegree t"
      and hi: "degreeOf inDegree t \<le> int (count_list ?ds t)" by auto
    from td dsK have tK: "t \<in> ?K" by auto
    have "int (count_list ?ds t) \<le> degreeOf inDegree t"
      using cnt [of t] tK I(3) split [of t] by auto
    with hi dg lo tK show "t \<in> ?K \<and> 1 \<le> degreeOf inDegree t \<and> degreeOf inDegree' t = 0" by auto
  qed
  have i1: "distinct ((done_ids @ [n]) @ queue')"
  proof -
    have "set pushed \<inter> set (done_ids @ n # queue) = {}"
    proof (rule ccontr)
      assume "set pushed \<inter> set (done_ids @ n # queue) \<noteq> {}"
      then obtain t where "t \<in> set pushed" "t \<in> set (done_ids @ n # queue)" by auto
      with pushed_info I(4) show False by fastforce
    qed
    with I(1) dp q' show ?thesis by auto
  qed
  have i2: "set ((done_ids @ [n]) @ queue') \<subseteq> ?K"
    using I(2) q' pushed_info by auto
  have i3: "\<forall>t \<in> ?K. degreeOf inDegree' t = ?left (set (done_ids @ [n])) t"
  proof
    fix t assume tK: "t \<in> ?K"
    have "degreeOf inDegree' t = degreeOf inDegree t - int (count_list (depsOf graph t) n)"
      using dg cnt [of t] tK by simp
    also have "degreeOf inDegree t = ?left (set done_ids) t" using I(3) tK by blast
    finally show "degreeOf inDegree' t = ?left (set (done_ids @ [n])) t"
      using split [of t] by linarith
  qed
  have i4: "\<forall>t \<in> set ((done_ids @ [n]) @ queue'). degreeOf inDegree' t = 0"
    using old0 pushed_info q' by auto
  have i5: "\<forall>t \<in> ?K. degreeOf inDegree' t = 0 \<and> t \<noteq> [] \<longrightarrow> t \<in> set ((done_ids @ [n]) @ queue')"
  proof (intro ballI impI)
    fix t assume tK: "t \<in> ?K" and z: "degreeOf inDegree' t = 0 \<and> t \<noteq> []"
    show "t \<in> set ((done_ids @ [n]) @ queue')"
    proof (cases "degreeOf inDegree t = 0")
      case True
      with I(5) tK z have "t \<in> set (done_ids @ n # queue)" by blast
      then show ?thesis using q' by auto
    next
      case False
      have "0 \<le> degreeOf inDegree t" using I(3) tK by auto
      with False have lo: "1 \<le> degreeOf inDegree t" by linarith
      from z dg have eq: "degreeOf inDegree t = int (count_list ?ds t)" by simp
      with lo have "0 < count_list ?ds t" by linarith
      then have "t \<in> set ?ds" by (simp add: count_list_pos)
      with lo eq sp have "t \<in> set pushed" by simp
      then show ?thesis using q' by simp
    qed
  qed
  have i6: "\<forall>pre t post. done_ids @ [n] = pre @ t # post \<longrightarrow> set (depsOf graph t) \<subseteq> set pre"
  proof (intro allI impI)
    fix pre t post assume e: "done_ids @ [n] = pre @ t # post"
    show "set (depsOf graph t) \<subseteq> set pre"
    proof (cases post rule: rev_cases)
      case Nil
      with e have "pre = done_ids" "t = n" by auto
      moreover have "degreeOf inDegree n = 0" using I(4) by simp
      ultimately show ?thesis using zero_deps [of n] nK by simp
    next
      case (snoc post' x)
      with e have "done_ids = pre @ t # post'" by simp
      with I(6) show ?thesis by blast
    qed
  qed
  have i7: "[] \<notin> set (done_ids @ [n])" using I(7) ne by simp
  show ?thesis
    unfolding kahnInv_def
    apply (intro conjI)
          apply (fact i1)
         apply (fact i2)
        apply (fact i3)
       apply (fact i4)
      apply (fact i5)
     apply (fact i6)
    apply (fact i7)
    done
qed

lemma kahn_loop_final:
  "consistentGraph graph \<Longrightarrow> kahnInv graph queue inDegree done_ids \<Longrightarrow>
     kahnFinal graph (kahn_loop graph queue inDegree done_ids)"
proof (induction graph queue inDegree done_ids rule: kahn_loop.induct)
  case (1 graph inDegree done_ids)
  note I = kahnInvD [OF 1(2)]
  have "\<forall>t \<in> fst ` set graph. t \<noteq> [] \<and> t \<notin> set done_ids \<longrightarrow>
           (\<exists>d \<in> set (depsOf graph t). d \<notin> set done_ids)"
  proof (intro ballI impI)
    fix t assume tK: "t \<in> fst ` set graph" and t: "t \<noteq> [] \<and> t \<notin> set done_ids"
    with I(5) have "degreeOf inDegree t \<noteq> 0" by auto
    with I(3) tK have "length (filter (\<lambda>d. d \<notin> set done_ids) (depsOf graph t)) \<noteq> 0" by auto
    then show "\<exists>d \<in> set (depsOf graph t). d \<notin> set done_ids"
      by (auto simp: filter_empty_conv)
  qed
  with I show ?case by (simp add: kahnFinal_def)
next
  case (2 graph nodeId queue inDegree done_ids)
  show ?case
  proof (cases "nodeId = []")
    case True
    with 2(5) have "kahnInv graph queue inDegree done_ids" using kahn_drop_empty by simp
    with 2(1) [OF True 2(4)] True show ?thesis by simp
  next
    case ne: False
    have "nodeId \<in> fst ` set graph" using kahnInvD(2) [OF 2(5)] by auto
    then obtain node where node: "map_of graph nodeId = Some node"
      by (metis domD dom_map_of_conv_image_fst)
    obtain inDegree' queue' where fr: "fold relax (dependentPlanIds node) (inDegree, queue) = (inDegree', queue')"
      by (cases "fold relax (dependentPlanIds node) (inDegree, queue)") auto
    from kahn_step [OF 2(4) 2(5) ne node fr]
    have "kahnInv graph queue' inDegree' (done_ids @ [nodeId])" .
    from 2(3) [OF ne node fr [symmetric] 2(4) this] ne node fr show ?thesis by simp
  qed
qed

section \<open>The in-degrees at the start\<close>

lemma fold_zero:
  "distinct (map fst m0 @ map fst gs) \<Longrightarrow>
   fold zeroDegree gs m0
     = m0 @ map (\<lambda>(k, node). (k, 0)) gs"
proof (induction gs arbitrary: m0)
  case Nil
  then show ?case by simp
next
  case (Cons a gs)
  obtain k node where a: "a = (k, node)" by (cases a)
  from Cons.prems a have k: "k \<notin> fst ` set m0" by auto
  then have none: "map_of m0 k = None" by (simp add: map_of_eq_None_iff)
  have d: "distinct (map fst (m0 @ [(k, 0)]) @ map fst gs)" using Cons.prems a by auto
  show ?case
    using Cons.IH [OF d] a none k by (simp add: update_absent zeroDegree_def)
qed

lemma fold_count_keys:
  "(\<forall>(k, node) \<in> set gs. planId node \<in> fst ` set m) \<Longrightarrow>
   map fst (fold countDegree gs m) = map fst m"
proof (induction gs arbitrary: m)
  case Nil
  then show ?case by simp
next
  case (Cons a gs)
  obtain k node where a: "a = (k, node)" by (cases a)
  let ?m1 = "if int (length (dependsOnPlanIds node)) > 0
             then AList.update (planId node) (int (length (dependsOnPlanIds node))) m else m"
  have pk: "planId node \<in> fst ` set m" using Cons.prems a by auto
  then have k1: "map fst ?m1 = map fst m" by (simp add: update_present_keys)
  then have "fst ` set ?m1 = fst ` set m" by (metis list.set_map)
  with Cons.prems have "\<forall>(k, node) \<in> set gs. planId node \<in> fst ` set ?m1" by auto
  from Cons.IH [OF this] k1 a show ?case by (simp add: Let_def countDegree_def)
qed

lemma fold_count_map_of:
  "distinct (map fst gs) \<Longrightarrow> (\<forall>(k, node) \<in> set gs. planId node = k) \<Longrightarrow>
   map_of (fold countDegree gs m) x
     = (case map_of gs x of
          None \<Rightarrow> map_of m x
        | Some node \<Rightarrow> (if dependsOnPlanIds node \<noteq> [] then Some (int (length (dependsOnPlanIds node)))
                        else map_of m x))"
proof (induction gs arbitrary: m)
  case Nil
  then show ?case by simp
next
  case (Cons a gs)
  obtain k node where a: "a = (k, node)" by (cases a)
  have pk: "planId node = k" using Cons.prems a by auto
  have d: "distinct (map fst gs)" and p: "\<forall>(k, node) \<in> set gs. planId node = k"
    and kn: "k \<notin> fst ` set gs"
    using Cons.prems a by auto
  have none: "map_of gs k = None" using kn by (simp add: map_of_eq_None_iff)
  show ?case
  proof (cases "dependsOnPlanIds node = []")
    case True
    then have st: "fold countDegree (a # gs) m = fold countDegree gs m"
      using a by (simp add: countDegree_def)
    have "map_of (fold countDegree gs m) x =
        (case map_of gs x of None \<Rightarrow> map_of m x
         | Some node \<Rightarrow> (if dependsOnPlanIds node \<noteq> [] then Some (int (length (dependsOnPlanIds node)))
                        else map_of m x))"
      by (rule Cons.IH [OF d p])
    with True none a show ?thesis unfolding st by (cases "x = k") (simp_all split: option.splits)
  next
    case False
    let ?c = "int (length (dependsOnPlanIds node))"
    from False have st: "fold countDegree (a # gs) m = fold countDegree gs (AList.update k ?c m)"
      using a pk by (simp add: countDegree_def Let_def)
    have ih: "map_of (fold countDegree gs (AList.update k ?c m)) x =
        (case map_of gs x of None \<Rightarrow> map_of (AList.update k ?c m) x
         | Some node \<Rightarrow> (if dependsOnPlanIds node \<noteq> [] then Some (int (length (dependsOnPlanIds node)))
                        else map_of (AList.update k ?c m) x))"
      by (rule Cons.IH [OF d p])
    show ?thesis
    proof (cases "x = k")
      case True
      with ih none False a show ?thesis unfolding st by (simp add: update_conv' split: option.splits)
    next
      case ne: False
      then have "map_of (AList.update k ?c m) x = map_of m x" by (simp add: update_conv')
      with ih ne a show ?thesis unfolding st by (simp split: option.splits)
    qed
  qed
qed

lemma initDegrees_keys:
  assumes "consistentGraph graph"
  shows "map fst (initDegrees graph) = map fst graph"
proof -
  note G = consistentGraphD [OF assms]
  have z: "fold zeroDegree graph [] = map (\<lambda>(k, node). (k, 0)) graph"
    using fold_zero [of "[]" graph] G(1) by simp
  have mk: "map fst (map (\<lambda>(k, node). (k, 0::int)) graph) = map fst graph"
    by (induction graph) auto
  then have ks: "fst ` set (map (\<lambda>(k, node). (k, 0::int)) graph) = fst ` set graph"
    by (metis list.set_map)
  have "\<forall>(k, node) \<in> set graph. planId node \<in> fst ` set (map (\<lambda>(k, node). (k, 0::int)) graph)"
  proof (clarify)
    fix k node assume kn: "(k, node) \<in> set graph"
    with G(2) have "planId node = k" by auto
    moreover from kn have "k \<in> fst ` set graph" by (rule image_eqI [rotated]) simp
    ultimately show "planId node \<in> fst ` set (map (\<lambda>(k, node). (k, 0::int)) graph)"
      using ks by simp
  qed
  from fold_count_keys [OF this] have "map fst (initDegrees graph) = map fst (map (\<lambda>(k, node). (k, 0::int)) graph)"
    unfolding initDegrees_def z .
  with mk show ?thesis by simp
qed

lemma initDegrees_degree:
  assumes "consistentGraph graph" and "k \<in> fst ` set graph"
  shows "map_of (initDegrees graph) k = Some (int (length (depsOf graph k)))"
proof -
  note G = consistentGraphD [OF assms(1)]
  have z: "fold zeroDegree graph [] = map (\<lambda>(k, node). (k, 0)) graph"
    using fold_zero [of "[]" graph] G(1) by simp
  from assms(2) obtain node where node: "map_of graph k = Some node"
    by (metis domD dom_map_of_conv_image_fst)
  have zero: "map_of (map (\<lambda>(k, node). (k, 0::int)) gs) k = (if k \<in> fst ` set gs then Some 0 else None)" for gs :: Graph
    by (induction gs) auto
  have "map_of (initDegrees graph) k =
     (case map_of graph k of
          None \<Rightarrow> map_of (map (\<lambda>(k, node). (k, 0)) graph) k
        | Some node \<Rightarrow> (if dependsOnPlanIds node \<noteq> [] then Some (int (length (dependsOnPlanIds node)))
                        else map_of (map (\<lambda>(k, node). (k, 0)) graph) k))"
    unfolding initDegrees_def z by (rule fold_count_map_of [OF G(1) G(2)])
  then show ?thesis
    using node assms(2) by (simp add: zero depsOf_def)
qed

lemma filter_alist_keys:
  "distinct (map fst al) \<Longrightarrow>
   map fst (filter (\<lambda>(k, v). P v) al) = filter (\<lambda>k. \<exists>v. map_of al k = Some v \<and> P v) (map fst al)"
proof (induction al)
  case Nil
  then show ?case by simp
next
  case (Cons a al)
  obtain k v where a: "a = (k, v)" by (cases a)
  have "filter (\<lambda>x. \<exists>v'. map_of (a # al) x = Some v' \<and> P v') (map fst al)
      = filter (\<lambda>x. \<exists>v'. map_of al x = Some v' \<and> P v') (map fst al)"
    using Cons.prems a by (intro filter_cong) auto
  with Cons a show ?case by auto
qed

lemma seedQueue_roots:
  assumes "consistentGraph graph"
  shows "seedQueue (initDegrees graph) = filter (\<lambda>k. depsOf graph k = []) (map fst graph)"
proof -
  note G = consistentGraphD [OF assms]
  have d: "distinct (map fst (initDegrees graph))" using G(1) initDegrees_keys [OF assms] by simp
  have "seedQueue (initDegrees graph)
      = filter (\<lambda>k. \<exists>v. map_of (initDegrees graph) k = Some v \<and> v = 0) (map fst (initDegrees graph))"
    unfolding seedQueue_def using filter_alist_keys [OF d, of "\<lambda>v. v = 0"] by simp
  also have "\<dots> = filter (\<lambda>k. \<exists>v. map_of (initDegrees graph) k = Some v \<and> v = 0) (map fst graph)"
    by (simp add: initDegrees_keys [OF assms])
  also have "\<dots> = filter (\<lambda>k. depsOf graph k = []) (map fst graph)"
    by (intro filter_cong) (auto simp: initDegrees_degree [OF assms])
  finally show ?thesis .
qed

lemma kahn_start:
  assumes "consistentGraph graph"
  shows "kahnInv graph (seedQueue (initDegrees graph)) (initDegrees graph) []"
proof -
  note G = consistentGraphD [OF assms]
  let ?q = "seedQueue (initDegrees graph)"
  have q: "?q = filter (\<lambda>k. depsOf graph k = []) (map fst graph)" by (rule seedQueue_roots [OF assms])
  have deg: "degreeOf (initDegrees graph) k = int (length (depsOf graph k))" if "k \<in> fst ` set graph" for k
    using initDegrees_degree [OF assms that] by (simp add: degreeOf_def)
  show ?thesis
    unfolding kahnInv_def
  proof (intro conjI)
    show "distinct ([] @ ?q)" using G(1) q by simp
    show "set ([] @ ?q) \<subseteq> fst ` set graph" using q by auto
    show "\<forall>t \<in> fst ` set graph.
           degreeOf (initDegrees graph) t = int (length (filter (\<lambda>d. d \<notin> set []) (depsOf graph t)))"
      using deg by simp
    show "\<forall>t \<in> set ([] @ ?q). degreeOf (initDegrees graph) t = 0"
      using deg q by auto
    show "\<forall>t \<in> fst ` set graph. degreeOf (initDegrees graph) t = 0 \<and> t \<noteq> [] \<longrightarrow> t \<in> set ([] @ ?q)"
      using deg q by auto
    show "\<forall>pre t post. [] = pre @ t # post \<longrightarrow> set (depsOf graph t) \<subseteq> set pre" by simp
    show "[] \<notin> set []" by simp
  qed
qed

lemma kahn_result:
  assumes "consistentGraph graph"
  shows "kahnFinal graph (kahn_loop graph (seedQueue (initDegrees graph)) (initDegrees graph) [])"
  using kahn_loop_final [OF assms kahn_start [OF assms]] .

section \<open>The graph of a stack\<close>

lemma fold_stackNode:
  "distinct (map fst m0 @ map sp_planId sps) \<Longrightarrow>
   fold stackNode sps m0 = m0 @ map (\<lambda>sp. (sp_planId sp, freshNode sp)) sps"
proof (induction sps arbitrary: m0)
  case Nil
  then show ?case by simp
next
  case (Cons sp sps)
  from Cons.prems have k: "sp_planId sp \<notin> fst ` set m0" by auto
  have d: "distinct (map fst (m0 @ [(sp_planId sp, freshNode sp)]) @ map sp_planId sps)"
    using Cons.prems by auto
  show ?case
    using Cons.IH [OF d] k by (simp add: stackNode_def update_absent freshNode_def)
qed

lemma addDependent_keys: "map fst (addDependent p d h) = map fst h"
proof (cases "map_of h d")
  case None
  then show ?thesis by (simp add: addDependent_def)
next
  case (Some nd)
  then have "d \<in> fst ` set h" by (metis domI dom_map_of_conv_image_fst)
  with Some show ?thesis by (simp add: addDependent_def update_present_keys)
qed

lemma addDependent_map_of:
  "map_of (addDependent p d h) k =
     (if k = d then map_option (\<lambda>nd. nd\<lparr>dependentPlanIds := dependentPlanIds nd @ [p]\<rparr>) (map_of h d)
      else map_of h k)"
  by (cases "map_of h d") (simp_all add: addDependent_def update_conv')

lemma fold_addDependent_keys: "map fst (fold (addDependent p) ds h) = map fst h"
  by (induction ds arbitrary: h) (simp_all add: addDependent_keys)

lemma fold_addDependent_map_of:
  "map_of (fold (addDependent p) ds h) k =
     map_option (\<lambda>nd. nd\<lparr>dependentPlanIds := dependentPlanIds nd @ replicate (count_list ds k) p\<rparr>)
       (map_of h k)"
proof (induction ds arbitrary: h)
  case Nil
  then show ?case by (cases "map_of h k") simp_all
next
  case (Cons d ds)
  show ?case
  proof (cases "k = d")
    case True
    then show ?thesis
      using Cons.IH [of "addDependent p d h"]
      by (cases "map_of h d") (simp_all add: addDependent_map_of replicate_append_same)
  next
    case False
    then show ?thesis
      using Cons.IH [of "addDependent p d h"] by (simp add: addDependent_map_of)
  qed
qed

lemma fold_addAll_keys:
  "map fst (fold (\<lambda>sp graph. fold (addDependent (sp_planId sp)) (sp_dependsOnPlanIds sp) graph) sps h)
     = map fst h"
  by (induction sps arbitrary: h) (simp_all add: fold_addDependent_keys)

lemma fold_addAll_map_of:
  "map_of (fold (\<lambda>sp graph. fold (addDependent (sp_planId sp)) (sp_dependsOnPlanIds sp) graph) sps h) k =
     map_option (\<lambda>nd. nd\<lparr>dependentPlanIds := dependentPlanIds nd @ dependentsFrom sps k\<rparr>)
       (map_of h k)"
proof (induction sps arbitrary: h)
  case Nil
  then show ?case by (cases "map_of h k") (simp_all add: dependentsFrom_def)
next
  case (Cons sp sps)
  show ?case
    using Cons.IH [of "fold (addDependent (sp_planId sp)) (sp_dependsOnPlanIds sp) h"]
    by (cases "map_of h k") (simp_all add: fold_addDependent_map_of dependentsFrom_def)
qed

lemma map_of_fresh:
  "map_of (map (\<lambda>sp. (sp_planId sp, freshNode sp)) sps) k =
     map_option freshNode (find (\<lambda>sp. sp_planId sp = k) sps)"
  by (induction sps) auto

lemma stackGraph_keys:
  "distinct (map sp_planId sps) \<Longrightarrow> map fst (stackGraph sps) = map sp_planId sps"
  using fold_stackNode [of "[]" sps]
  by (simp add: stackGraph_def fold_addAll_keys comp_def)

lemma stackGraph_map_of:
  "distinct (map sp_planId sps) \<Longrightarrow>
   map_of (stackGraph sps) k =
     map_option (\<lambda>sp. \<lparr>planId = sp_planId sp, dependsOnPlanIds = sp_dependsOnPlanIds sp,
                        dependentPlanIds = dependentsFrom sps k\<rparr>)
       (find (\<lambda>sp. sp_planId sp = k) sps)"
proof -
  assume d: "distinct (map sp_planId sps)"
  have g0: "fold stackNode sps [] = map (\<lambda>sp. (sp_planId sp, freshNode sp)) sps"
    using fold_stackNode [of "[]" sps] d by simp
  have "map_of (stackGraph sps) k =
     map_option (\<lambda>nd. nd\<lparr>dependentPlanIds := dependentPlanIds nd @ dependentsFrom sps k\<rparr>)
       (map_option freshNode (find (\<lambda>sp. sp_planId sp = k) sps))"
    unfolding stackGraph_def fold_addAll_map_of g0 map_of_fresh ..
  then show ?thesis
    by (cases "find (\<lambda>sp. sp_planId sp = k) sps") (simp_all add: freshNode_def)
qed

lemma count_dependentsFrom_absent:
  "t \<notin> sp_planId ` set sps \<Longrightarrow> count_list (dependentsFrom sps k) t = 0"
  by (induction sps) (auto simp: dependentsFrom_def count_list_0_iff)

lemma count_list_replicate: "count_list (replicate n x) t = (if x = t then n else 0)"
  by (induction n) auto

lemma count_dependentsFrom:
  "distinct (map sp_planId sps) \<Longrightarrow>
   count_list (dependentsFrom sps k) t =
     (case find (\<lambda>sp. sp_planId sp = t) sps of
        None \<Rightarrow> 0 | Some sp \<Rightarrow> count_list (sp_dependsOnPlanIds sp) k)"
proof (induction sps)
  case Nil
  then show ?case by (simp add: dependentsFrom_def)
next
  case (Cons sp sps)
  have split: "dependentsFrom (sp # sps) k =
      replicate (count_list (sp_dependsOnPlanIds sp) k) (sp_planId sp) @ dependentsFrom sps k"
    by (simp add: dependentsFrom_def)
  show ?case
  proof (cases "sp_planId sp = t")
    case True
    with Cons.prems have "t \<notin> sp_planId ` set sps" by auto
    from count_dependentsFrom_absent [OF this] True show ?thesis
      by (simp add: split count_list_replicate)
  next
    case False
    with Cons show ?thesis by (simp add: split count_list_replicate)
  qed
qed

lemma find_planId:
  "find (\<lambda>sp. sp_planId sp = k) sps = Some sp \<Longrightarrow> sp_planId sp = k \<and> sp \<in> set sps"
  by (induction sps) (auto split: if_splits)

lemma find_None_keys: "(find (\<lambda>sp. sp_planId sp = k) sps = None) = (k \<notin> sp_planId ` set sps)"
  by (induction sps) auto

lemma stackGraph_depsOf:
  "distinct (map sp_planId sps) \<Longrightarrow>
   depsOf (stackGraph sps) k =
     (case find (\<lambda>sp. sp_planId sp = k) sps of None \<Rightarrow> [] | Some sp \<Rightarrow> sp_dependsOnPlanIds sp)"
  by (cases "find (\<lambda>sp. sp_planId sp = k) sps") (simp_all add: depsOf_def stackGraph_map_of)

lemma stackGraph_dependentsOf:
  "distinct (map sp_planId sps) \<Longrightarrow> k \<in> sp_planId ` set sps \<Longrightarrow>
   dependentsOf (stackGraph sps) k = dependentsFrom sps k"
  using find_None_keys [of k sps]
  by (cases "find (\<lambda>sp. sp_planId sp = k) sps") (simp_all add: dependentsOf_def stackGraph_map_of)

lemma stackGraph_consistent:
  assumes d: "distinct (map sp_planId sps)"
  shows "consistentGraph (stackGraph sps)"
proof -
  have keys: "fst ` set (stackGraph sps) = sp_planId ` set sps"
    using stackGraph_keys [OF d] by (metis list.set_map)
  show ?thesis
    unfolding consistentGraph_def
  proof (intro conjI)
    show "distinct (map fst (stackGraph sps))" using stackGraph_keys [OF d] d by simp
    show "\<forall>(k, node) \<in> set (stackGraph sps). planId node = k"
    proof (clarify)
      fix k node assume "(k, node) \<in> set (stackGraph sps)"
      then have "map_of (stackGraph sps) k = Some node"
        using stackGraph_keys [OF d] d by (simp add: map_of_eq_Some_iff)
      then show "planId node = k"
        unfolding stackGraph_map_of [OF d]
        by (cases "find (\<lambda>sp. sp_planId sp = k) sps") (auto dest: find_planId)
    qed
    show "\<forall>dd \<in> fst ` set (stackGraph sps). \<forall>t.
           count_list (dependentsOf (stackGraph sps) dd) t =
             (if t \<in> fst ` set (stackGraph sps) then count_list (depsOf (stackGraph sps) t) dd else 0)"
    proof (intro ballI allI)
      fix dd t assume "dd \<in> fst ` set (stackGraph sps)"
      then have dk: "dd \<in> sp_planId ` set sps" using keys by simp
      show "count_list (dependentsOf (stackGraph sps) dd) t =
             (if t \<in> fst ` set (stackGraph sps) then count_list (depsOf (stackGraph sps) t) dd else 0)"
        unfolding keys stackGraph_dependentsOf [OF d dk] count_dependentsFrom [OF d] stackGraph_depsOf [OF d]
        using find_None_keys [of t sps]
        by (cases "find (\<lambda>sp. sp_planId sp = t) sps") simp_all
    qed
  qed
qed

section \<open>Cycle detection\<close>

lemma isWalk_snoc:
  "isWalk graph xs \<Longrightarrow> xs \<noteq> [] \<Longrightarrow> y \<in> set (depsOf graph (last xs)) \<Longrightarrow> isWalk graph (xs @ [y])"
proof (induction graph xs rule: isWalk.induct)
  case (1 graph)
  then show ?case by simp
next
  case (2 graph x)
  then show ?case by simp
next
  case (3 graph x y zs)
  then show ?case by simp
qed

lemma isWalk_drop: "isWalk graph xs \<Longrightarrow> isWalk graph (drop k xs)"
proof (induction graph xs arbitrary: k rule: isWalk.induct)
  case (1 graph)
  then show ?case by simp
next
  case (2 graph x)
  then show ?case by (cases k) simp_all
next
  case (3 graph x y zs)
  show ?case
  proof (cases k)
    case 0
    with 3 show ?thesis by simp
  next
    case (Suc j)
    with 3 show ?thesis by simp
  qed
qed

lemma isWalk_trancl:
  "isWalk graph (x # xs) \<Longrightarrow> xs \<noteq> [] \<Longrightarrow> (x, last xs) \<in> (edges graph)\<^sup>+"
proof (induction xs arbitrary: x)
  case Nil
  then show ?case by simp
next
  case (Cons y ys)
  then have e: "(x, y) \<in> edges graph" by (simp add: edges_def)
  show ?case
  proof (cases ys)
    case Nil
    with e show ?thesis by auto
  next
    case (Cons z zs)
    with Cons.prems Cons.IH [of y] have "(y, last ys) \<in> (edges graph)\<^sup>+" by simp
    with e Cons show ?thesis by (simp add: trancl_into_trancl2)
  qed
qed

lemma validCycle_cyclic: "validCycle graph cs \<Longrightarrow> \<not> acyclic (edges graph)"
proof -
  assume v: "validCycle graph cs"
  then have "2 \<le> length cs" by (simp add: validCycle_def)
  then obtain x xs where cs: "cs = x # xs" "xs \<noteq> []"
    by (cases cs) force+
  with v have "isWalk graph (x # xs)" "last xs = x" by (auto simp: validCycle_def)
  with isWalk_trancl [of graph x xs] cs have "(x, x) \<in> (edges graph)\<^sup>+" by simp
  then show ?thesis by (auto simp: acyclic_def)
qed

lemma indexOf_present: "x \<in> set xs \<Longrightarrow> 0 \<le> indexOf xs x \<and> nat (indexOf xs x) < length xs \<and> xs ! nat (indexOf xs x) = x"
proof (induction xs)
  case Nil
  then show ?case by simp
next
  case (Cons y ys)
  show ?case
  proof (cases "y = x")
    case True
    then show ?thesis by simp
  next
    case False
    with Cons have ih: "0 \<le> indexOf ys x" "nat (indexOf ys x) < length ys" "ys ! nat (indexOf ys x) = x"
      by auto
    then have "nat (indexOf ys x + 1) = Suc (nat (indexOf ys x))" by simp
    with False ih show ?thesis by (simp add: Let_def)
  qed
qed

lemma slice_nonneg: "0 \<le> i \<Longrightarrow> nat i \<le> length xs \<Longrightarrow> slice xs i = drop (nat i) xs"
  by (auto simp: slice_def Let_def min_def)

lemma found_cycle:
  assumes w: "isWalk graph path" and d: "d \<in> set path" and e: "d \<in> set (depsOf graph (last path))"
  shows "validCycle graph (slice path (indexOf path d) @ [d])"
proof -
  let ?i = "nat (indexOf path d)"
  from indexOf_present [OF d] have i: "0 \<le> indexOf path d" "?i < length path" "path ! ?i = d" by auto
  then have s: "slice path (indexOf path d) = drop ?i path" by (simp add: slice_nonneg)
  have ne: "drop ?i path \<noteq> []" using i by simp
  have hd: "hd (drop ?i path) = d" using i by (simp add: hd_drop_conv_nth)
  have la: "last (drop ?i path) = last path" using i by simp
  have "isWalk graph (drop ?i path @ [d])"
    using isWalk_snoc [OF isWalk_drop [OF w, of ?i] ne] e la by simp
  moreover have "hd (drop ?i path @ [d]) = d" using ne hd by simp
  moreover have "2 \<le> length (drop ?i path @ [d])" using i by simp
  ultimately show ?thesis by (simp add: validCycle_def s)
qed

lemma settled_add:
  assumes s: "settled graph B" and deps: "set (depsOf graph n) \<subseteq> B" and n: "n \<notin> B"
  shows "settled graph (insert n B)"
proof -
  have closed: "\<forall>x \<in> B. set (depsOf graph x) \<subseteq> B" using s by (simp add: settled_def)
  have reach: "(x, y) \<in> (edges graph)\<^sup>+ \<Longrightarrow> x \<in> B \<Longrightarrow> y \<in> B" for x y
  proof (induction rule: trancl_induct)
    case (base y)
    with closed show ?case by (auto simp: edges_def)
  next
    case (step y z)
    with closed show ?case by (auto simp: edges_def)
  qed
  have "(n, n) \<notin> (edges graph)\<^sup>+"
  proof
    assume "(n, n) \<in> (edges graph)\<^sup>+"
    then obtain y where y: "(n, y) \<in> edges graph" "(y, n) \<in> (edges graph)\<^sup>*"
      by (meson converse_tranclE rtrancl_eq_or_trancl trancl_into_rtrancl)
    then have yB: "y \<in> B" using deps by (auto simp: edges_def)
    from y(2) have "y = n \<or> (y, n) \<in> (edges graph)\<^sup>+" by (auto simp add: rtrancl_eq_or_trancl)
    with yB reach n show False by auto
  qed
  with s deps show ?thesis by (auto simp: settled_def)
qed

lemma set_butlast_last: "path \<noteq> [] \<Longrightarrow> set path = insert (last path) (set (butlast path))"
proof -
  assume "path \<noteq> []"
  then have "path = butlast path @ [last path]" by simp
  then have "set path = set (butlast path @ [last path])" by (rule arg_cong)
  then show ?thesis by (simp del: append_butlast_last_id)
qed

lemma dfs_correct:
  "dfs graph nodeId path st = (b, V', c') \<Longrightarrow>
     path \<noteq> [] \<Longrightarrow> last path = nodeId \<Longrightarrow> isWalk graph path \<Longrightarrow> nodeId \<notin> fst st \<Longrightarrow>
     set (butlast path) \<subseteq> fst st \<Longrightarrow> settled graph (fst st - set (butlast path)) \<Longrightarrow> snd st = [] \<Longrightarrow>
     (b \<longrightarrow> validCycle graph c')
     \<and> (\<not> b \<longrightarrow> c' = [] \<and> insert nodeId (fst st) \<subseteq> V' \<and> settled graph (V' - set (butlast path)))"
  and dfs_deps_correct:
  "dfs_deps graph path deps st = (b, V', c') \<Longrightarrow>
     path \<noteq> [] \<Longrightarrow> isWalk graph path \<Longrightarrow> set path \<subseteq> fst st \<Longrightarrow>
     set deps \<subseteq> set (depsOf graph (last path)) \<Longrightarrow> settled graph (fst st - set path) \<Longrightarrow> snd st = [] \<Longrightarrow>
     (b \<longrightarrow> validCycle graph c')
     \<and> (\<not> b \<longrightarrow> c' = [] \<and> fst st \<subseteq> V' \<and> set deps \<subseteq> V' - set path \<and> settled graph (V' - set path))"
proof (induction graph nodeId path st and graph path deps st arbitrary: b V' c' and b V' c'
    rule: dfs_dfs_deps.induct)
  case (1 graph nodeId path visited cyc)
  have ne: "path \<noteq> []" and la: "last path = nodeId" and wk: "isWalk graph path"
    and nv: "nodeId \<notin> visited" and bl: "set (butlast path) \<subseteq> visited"
    and se: "settled graph (visited - set (butlast path))" and cy: "cyc = []"
    using 1(3-9) by simp_all
  have lastp: "set path = insert nodeId (set (butlast path))"
    using set_butlast_last [OF ne] la by simp
  have notin: "nodeId \<notin> set (butlast path)" using nv bl by auto
  have B: "insert nodeId visited - set path = visited - set (butlast path)"
    using lastp nv notin by auto
  show ?case
  proof (cases "map_of graph nodeId")
    case None
    then have nodeps: "depsOf graph nodeId = []" by (simp add: depsOf_def)
    from None 1(2) have r: "b = False" "V' = insert nodeId visited" "c' = cyc" by simp_all
    have "nodeId \<notin> visited - set (butlast path)" using nv by simp
    from settled_add [OF se _ this] nodeps
    have "settled graph (insert nodeId (visited - set (butlast path)))" by simp
    moreover have "insert nodeId visited - set (butlast path) = insert nodeId (visited - set (butlast path))"
      using notin by auto
    ultimately show ?thesis using r cy by simp
  next
    case (Some node)
    then have deps: "depsOf graph nodeId = dependsOnPlanIds node" by (simp add: depsOf_def)
    from Some 1(2) have run: "dfs_deps graph path (dependsOnPlanIds node) (insert nodeId visited, cyc) = (b, V', c')"
      by simp
    have pre: "set path \<subseteq> fst (insert nodeId visited, cyc)" using lastp bl by auto
    have pre2: "set (dependsOnPlanIds node) \<subseteq> set (depsOf graph (last path))" using deps la by simp
    have pre3: "settled graph (fst (insert nodeId visited, cyc) - set path)" using B se by simp
    have pre4: "snd (insert nodeId visited, cyc) = []" using cy by simp
    note res = 1(1) [OF Some run ne wk pre pre2 pre3 pre4]
    show ?thesis
    proof (cases b)
      case True
      with res show ?thesis by simp
    next
      case False
      with res have r: "c' = []" "insert nodeId visited \<subseteq> V'"
        "set (dependsOnPlanIds node) \<subseteq> V' - set path" "settled graph (V' - set path)" by simp_all
      have "nodeId \<notin> V' - set path" using lastp by auto
      from settled_add [OF r(4) _ this] r(3) deps
      have "settled graph (insert nodeId (V' - set path))" by simp
      moreover have "insert nodeId (V' - set path) = V' - set (butlast path)"
        using lastp notin r(2) by auto
      ultimately show ?thesis using False r by simp
    qed
  qed
next
  case (2 graph path st)
  then show ?case by simp
next
  case (3 graph path depId rest visited cyc)
  have ne: "path \<noteq> []" and wk: "isWalk graph path" and pv: "set path \<subseteq> visited"
    and dep: "depId \<in> set (depsOf graph (last path))"
    and rest: "set rest \<subseteq> set (depsOf graph (last path))"
    and se: "settled graph (visited - set path)" and cy: "cyc = []"
    using 3(5-10) by simp_all
  show ?case
  proof (cases "depId \<in> visited")
    case False
    obtain b1 V1 c1 where call: "dfs graph depId (path @ [depId]) (visited, cyc) = (b1, V1, c1)"
      by (cases "dfs graph depId (path @ [depId]) (visited, cyc)") auto
    have w: "isWalk graph (path @ [depId])" using isWalk_snoc [OF wk ne dep] .
    have q1: "path @ [depId] \<noteq> []" by simp
    have q2: "last (path @ [depId]) = depId" by simp
    have q3: "depId \<notin> fst (visited, cyc)" using False by simp
    have q4: "set (butlast (path @ [depId])) \<subseteq> fst (visited, cyc)" using pv by simp
    have q5: "settled graph (fst (visited, cyc) - set (butlast (path @ [depId])))" using se by simp
    have q6: "snd (visited, cyc) = []" using cy by simp
    note r0 = 3(1) [OF False call q1 q2 w q3 q4 q5 q6]
    show ?thesis
    proof (cases b1)
      case True
      with call False 3(4) have "b = True" "c' = c1" by simp_all
      with r0 True show ?thesis by simp
    next
      case b1f: False
      with r0 have r: "c1 = []" "insert depId visited \<subseteq> V1" "settled graph (V1 - set path)" by simp_all
      from call False b1f 3(4) have run: "dfs_deps graph path rest (V1, c1) = (b, V', c')" by simp
      have p1: "set path \<subseteq> fst (V1, c1)" using pv r(2) by auto
      have p2: "set rest \<subseteq> set (depsOf graph (last path))" by (rule rest)
      have p3: "settled graph (fst (V1, c1) - set path)" using r(3) by simp
      have p4: "snd (V1, c1) = []" using r(1) by simp
      have bf: "b1 = False" using b1f by simp
      note res = 3(2) [OF False call [symmetric] bf run ne wk p1 p2 p3 p4]
      have dn: "depId \<notin> set path" using False pv by auto
      show ?thesis
      proof (cases b)
        case True
        with res show ?thesis by simp
      next
        case False
        with res have "c' = []" "V1 \<subseteq> V'" "set rest \<subseteq> V' - set path" "settled graph (V' - set path)"
          by simp_all
        with False dn r(2) show ?thesis by auto
      qed
    qed
  next
    case True
    show ?thesis
    proof (cases "depId \<in> set path")
      case inpath: True
      with True 3(4) have "b = True" "c' = cyc @ slice path (indexOf path depId) @ [depId]" by simp_all
      moreover have "validCycle graph (slice path (indexOf path depId) @ [depId])"
        using found_cycle [OF wk inpath dep] .
      ultimately show ?thesis using cy by simp
    next
      case False
      with True 3(4) have run: "dfs_deps graph path rest (visited, cyc) = (b, V', c')" by simp
      have t: "\<not> depId \<notin> visited" using True by simp
      have p1: "set path \<subseteq> fst (visited, cyc)" using pv by simp
      have p3: "settled graph (fst (visited, cyc) - set path)" using se by simp
      have p4: "snd (visited, cyc) = []" using cy by simp
      note res = 3(3) [OF t False run ne wk p1 rest p3 p4]
      show ?thesis
      proof (cases b)
        case bt: True
        with res show ?thesis by simp
      next
        case bf: False
        with res have "c' = []" "visited \<subseteq> V'" "set rest \<subseteq> V' - set path" "settled graph (V' - set path)"
          by simp_all
        with bf True False show ?thesis by auto
      qed
    qed
  qed
qed

lemma detect_keys_correct:
  "detect_keys graph ks st = (b, V', c') \<Longrightarrow> settled graph (fst st) \<Longrightarrow> snd st = [] \<Longrightarrow>
     (b \<longrightarrow> validCycle graph c')
     \<and> (\<not> b \<longrightarrow> c' = [] \<and> fst st \<subseteq> V' \<and> set ks \<subseteq> V' \<and> settled graph V')"
proof (induction graph ks st arbitrary: b V' c' rule: detect_keys.induct)
  case (1 graph st)
  then show ?case by simp
next
  case (2 graph nodeId rest visited cyc)
  have se: "settled graph visited" and cy: "cyc = []" using 2(4,5) by simp_all
  show ?case
  proof (cases "nodeId \<in> visited")
    case True
    with 2(3) have run: "detect_keys graph rest (visited, cyc) = (b, V', c')" by simp
    have t: "\<not> nodeId \<notin> visited" using True by simp
    note res = 2(2) [OF t run 2(4) 2(5)]
    show ?thesis
    proof (cases b)
      case bt: True
      with res show ?thesis by simp
    next
      case bf: False
      with res have "c' = []" "visited \<subseteq> V'" "set rest \<subseteq> V'" "settled graph V'" by simp_all
      with bf True show ?thesis by auto
    qed
  next
    case False
    obtain b1 V1 c1 where call: "dfs graph nodeId [nodeId] (visited, cyc) = (b1, V1, c1)"
      by (cases "dfs graph nodeId [nodeId] (visited, cyc)") auto
    have q1: "[nodeId] \<noteq> []" by simp
    have q2: "last [nodeId] = nodeId" by simp
    have q3: "isWalk graph [nodeId]" by simp
    have q4: "nodeId \<notin> fst (visited, cyc)" using False by simp
    have q5: "set (butlast [nodeId]) \<subseteq> fst (visited, cyc)" by simp
    have q6: "settled graph (fst (visited, cyc) - set (butlast [nodeId]))" using se by simp
    have q7: "snd (visited, cyc) = []" using cy by simp
    note r0 = dfs_correct [OF call q1 q2 q3 q4 q5 q6 q7]
    show ?thesis
    proof (cases b1)
      case True
      with call False 2(3) have "b = True" "c' = c1" by simp_all
      with r0 True show ?thesis by simp
    next
      case b1f: False
      with r0 have r: "c1 = []" "insert nodeId visited \<subseteq> V1" "settled graph V1" by simp_all
      from call False b1f 2(3) have run: "detect_keys graph rest (V1, c1) = (b, V', c')" by simp
      have bf: "b1 = False" using b1f by simp
      have p1: "settled graph (fst (V1, c1))" using r(3) by simp
      have p2: "snd (V1, c1) = []" using r(1) by simp
      note res = 2(1) [OF False call [symmetric] bf run p1 p2]
      show ?thesis
      proof (cases b)
        case True
        with res show ?thesis by simp
      next
        case False
        with res have "c' = []" "V1 \<subseteq> V'" "set rest \<subseteq> V'" "settled graph V'" by simp_all
        with False r(2) show ?thesis by auto
      qed
    qed
  qed
qed

lemma edge_source_is_key: "(x, y) \<in> edges graph \<Longrightarrow> x \<in> fst ` set graph"
proof -
  assume "(x, y) \<in> edges graph"
  then have "depsOf graph x \<noteq> []" by (auto simp: edges_def)
  then have "map_of graph x \<noteq> None" by (auto simp: depsOf_def split: option.splits)
  then show ?thesis by (simp add: map_of_eq_None_iff)
qed

lemma detectCycle_correct:
  "detectCycle graph = (b, cyc) \<Longrightarrow>
     (b \<longrightarrow> validCycle graph cyc) \<and> (\<not> b \<longrightarrow> cyc = [] \<and> acyclic (edges graph))"
proof -
  assume dc: "detectCycle graph = (b, cyc)"
  obtain b1 V1 c1 where run: "detect_keys graph (map fst graph) ({}, []) = (b1, V1, c1)"
    by (cases "detect_keys graph (map fst graph) ({}, [])") auto
  have s0: "settled graph (fst ({}, []))" by (simp add: settled_def)
  have c0: "snd ({}::string set, []::string list) = []" by simp
  note res = detect_keys_correct [OF run s0 c0]
  show ?thesis
  proof (cases b1)
    case True
    with run dc have "b = True" "cyc = c1" by (simp_all add: detectCycle_def)
    with res True show ?thesis by simp
  next
    case False
    with run dc have r: "b = False" "cyc = []" by (simp_all add: detectCycle_def)
    from res False have keys: "set (map fst graph) \<subseteq> V1" and se: "settled graph V1" by simp_all
    have "acyclic (edges graph)"
      unfolding acyclic_def
    proof (intro allI notI)
      fix x assume x: "(x, x) \<in> (edges graph)\<^sup>+"
      then obtain y where "(x, y) \<in> edges graph" by (meson tranclD)
      then have "x \<in> fst ` set graph" by (rule edge_source_is_key)
      with keys have "x \<in> V1" by auto
      with se x show False by (simp add: settled_def)
    qed
    with r show ?thesis by simp
  qed
qed

lemma hasCycle_iff: "hasCycle (topologicalSort graph) = (\<not> acyclic (edges graph))"
proof (cases "detectCycle graph")
  case (Pair b cyc)
  from detectCycle_correct [OF Pair] validCycle_cyclic [of graph cyc] Pair show ?thesis
    by (cases b) (auto simp: topologicalSort_def Let_def)
qed

lemma topologicalSort_acyclic:
  "acyclic (edges graph) \<Longrightarrow>
   topologicalSort graph =
     \<lparr>sortedPlanIds = kahn_loop graph (seedQueue (initDegrees graph)) (initDegrees graph) [],
      hasCycle = False, cycleNodes = None\<rparr>"
proof (cases "detectCycle graph")
  case (Pair b cyc)
  assume "acyclic (edges graph)"
  with detectCycle_correct [OF Pair] validCycle_cyclic [of graph cyc] have "\<not> b" by auto
  with Pair show ?thesis by (simp add: topologicalSort_def Let_def)
qed

text \<open>
  C5. A graph that contains a cycle (some node reaches itself along dependency edges, a
  self-dependency included) is flagged: \<open>topologicalSort\<close> returns \<open>hasCycle = true\<close> with an
  empty order, and the reported \<open>cycleNodes\<close> has at least two entries, ends at the node it
  starts from, and each entry is followed by one of its own dependencies. For a single
  task that depends on itself the report is that task twice: one edge.
\<close>

theorem cycle_is_reported:
  assumes "\<not> acyclic (edges graph)"
  shows "hasCycle (topologicalSort graph) \<and> sortedPlanIds (topologicalSort graph) = []
     \<and> (\<exists>cs. cycleNodes (topologicalSort graph) = Some cs
           \<and> 2 \<le> length cs \<and> hd cs = last cs \<and> isWalk graph cs)
     \<and> (\<forall>sp. sp_dependsOnPlanIds sp = [sp_planId sp] \<longrightarrow>
           getExecutionOrder [sp] =
             \<lparr>sortedPlanIds = [], hasCycle = True, cycleNodes = Some [sp_planId sp, sp_planId sp]\<rparr>)"
proof -
  obtain b cyc where dc: "detectCycle graph = (b, cyc)" by (cases "detectCycle graph")
  from detectCycle_correct [OF dc] assms have b: "b" and v: "validCycle graph cyc" by auto
  from dc b have ts: "topologicalSort graph = \<lparr>sortedPlanIds = [], hasCycle = True, cycleNodes = Some cyc\<rparr>"
    by (simp add: topologicalSort_def)
  have self: "getExecutionOrder [sp] =
             \<lparr>sortedPlanIds = [], hasCycle = True, cycleNodes = Some [sp_planId sp, sp_planId sp]\<rparr>"
    if "sp_dependsOnPlanIds sp = [sp_planId sp]" for sp
    using that
    by (simp add: getExecutionOrder_def stackGraph_def stackNode_def addDependent_def
        topologicalSort_def detectCycle_def slice_def)
  from ts v self show ?thesis by (simp add: validCycle_def)
qed

theorem cycle_is_reported_witness:
  "hasCycle (topologicalSort (stackGraph [mkPlan ''A'' [''B''], mkPlan ''B'' [''A'']]))
   \<and> sortedPlanIds (topologicalSort (stackGraph [mkPlan ''A'' [''B''], mkPlan ''B'' [''A'']])) = []
   \<and> (\<exists>cs. cycleNodes (topologicalSort (stackGraph [mkPlan ''A'' [''B''], mkPlan ''B'' [''A'']])) = Some cs
         \<and> 2 \<le> length cs \<and> hd cs = last cs
         \<and> isWalk (stackGraph [mkPlan ''A'' [''B''], mkPlan ''B'' [''A'']]) cs)
   \<and> getExecutionOrder [mkPlan ''A'' [''A'']] =
        \<lparr>sortedPlanIds = [], hasCycle = True, cycleNodes = Some [''A'', ''A'']\<rparr>"
proof -
  let ?g = "stackGraph [mkPlan ''A'' [''B''], mkPlan ''B'' [''A'']]"
  have ab: "(''A'', ''B'') \<in> edges ?g"
    by (simp add: edges_def depsOf_def stackGraph_def stackNode_def addDependent_def mkPlan_def)
  have ba: "(''B'', ''A'') \<in> edges ?g"
    by (simp add: edges_def depsOf_def stackGraph_def stackNode_def addDependent_def mkPlan_def)
  from ab ba have "(''A'', ''A'') \<in> (edges ?g)\<^sup>+" by (rule trancl_into_trancl2 [OF _ r_into_trancl])
  then have cyc: "\<not> acyclic (edges ?g)" by (auto simp: acyclic_def)
  have self: "sp_dependsOnPlanIds (mkPlan ''A'' [''A'']) = [sp_planId (mkPlan ''A'' [''A''])]"
    by (simp add: mkPlan_def)
  from cycle_is_reported [OF cyc] self show ?thesis
    by (simp add: mkPlan_def)
qed

lemma find_distinct:
  "distinct (map sp_planId sps) \<Longrightarrow> sp \<in> set sps \<Longrightarrow>
     find (\<lambda>p. sp_planId p = sp_planId sp) sps = Some sp"
  by (induction sps) (auto simp: image_iff)

lemma edges_stackGraph:
  assumes d: "distinct (map sp_planId sps)"
  shows "edges (stackGraph sps) = planEdges sps"
proof (intro set_eqI iffI)
  fix e assume "e \<in> edges (stackGraph sps)"
  then obtain n x where e: "e = (n, x)" "x \<in> set (depsOf (stackGraph sps) n)"
    by (auto simp: edges_def)
  then obtain sp where sp: "find (\<lambda>p. sp_planId p = n) sps = Some sp" "x \<in> set (sp_dependsOnPlanIds sp)"
    unfolding stackGraph_depsOf [OF d] by (cases "find (\<lambda>p. sp_planId p = n) sps") auto
  from find_planId [OF sp(1)] sp(2) e show "e \<in> planEdges sps"
    by (auto simp: planEdges_def)
next
  fix e assume "e \<in> planEdges sps"
  then obtain sp x where e: "e = (sp_planId sp, x)" "sp \<in> set sps" "x \<in> set (sp_dependsOnPlanIds sp)"
    by (auto simp: planEdges_def)
  from find_distinct [OF d e(2)] e show "e \<in> edges (stackGraph sps)"
    by (simp add: edges_def stackGraph_depsOf [OF d])
qed

lemma finite_edges: "finite (edges graph)"
proof -
  have "edges graph \<subseteq> fst ` set graph \<times> allDeps graph"
  proof
    fix e assume "e \<in> edges graph"
    then obtain n x where e: "e = (n, x)" "x \<in> set (depsOf graph n)" by (auto simp: edges_def)
    then obtain node where node: "map_of graph n = Some node" "x \<in> set (dependsOnPlanIds node)"
      by (cases "map_of graph n") (auto simp: depsOf_def)
    from deps_in_allDeps [OF node(1)] node(2) have "x \<in> allDeps graph" by auto
    moreover from node(1) have "n \<in> fst ` set graph" by (metis domI dom_map_of_conv_image_fst)
    ultimately show "e \<in> fst ` set graph \<times> allDeps graph" using e by simp
  qed
  then show ?thesis by (rule finite_subset) (simp add: finite_allDeps)
qed

text \<open>Kahn's algorithm leaves no node behind when the graph is acyclic, every dependency
  is a node, and no id is the empty string.\<close>

lemma kahnFinal_complete:
  assumes kf: "kahnFinal graph ids"
    and ac: "acyclic (edges graph)"
    and closed: "\<forall>k \<in> fst ` set graph. set (depsOf graph k) \<subseteq> fst ` set graph"
    and ne: "[] \<notin> fst ` set graph"
  shows "set ids = fst ` set graph"
proof (rule ccontr)
  assume neq: "set ids \<noteq> fst ` set graph"
  from kf have sub: "set ids \<subseteq> fst ` set graph"
    and more: "\<forall>t \<in> fst ` set graph. t \<noteq> [] \<and> t \<notin> set ids \<longrightarrow>
           (\<exists>d \<in> set (depsOf graph t). d \<notin> set ids)"
    by (simp_all add: kahnFinal_def)
  let ?R = "fst ` set graph - set ids"
  from neq sub obtain t0 where t0: "t0 \<in> ?R" by auto
  have wf: "wf ((edges graph)\<inverse>)"
    using finite_acyclic_wf_converse [OF finite_edges ac] .
  from wfE_min [OF wf t0] obtain z where z: "z \<in> ?R" "\<And>y. (y, z) \<in> (edges graph)\<inverse> \<Longrightarrow> y \<notin> ?R"
    by blast
  from z(1) ne have "z \<noteq> []" by blast
  with more z(1) obtain d where d: "d \<in> set (depsOf graph z)" "d \<notin> set ids" by auto
  with closed z(1) have "d \<in> ?R" by auto
  moreover from d(1) have "(d, z) \<in> (edges graph)\<inverse>" by (simp add: edges_def)
  ultimately show False using z(2) by blast
qed

lemma stackGraph_final:
  assumes d: "distinct (map sp_planId sps)" and nc: "\<not> hasCycle (getExecutionOrder sps)"
  shows "kahnFinal (stackGraph sps) (sortedPlanIds (getExecutionOrder sps))"
proof -
  from nc have "acyclic (edges (stackGraph sps))"
    by (simp add: getExecutionOrder_def hasCycle_iff)
  from topologicalSort_acyclic [OF this] kahn_result [OF stackGraph_consistent [OF d]]
  show ?thesis by (simp add: getExecutionOrder_def)
qed

text \<open>
  C4 (as amended). For the stack plans of an acyclic dependency graph (ids unique, every
  dependency the id of a plan of the stack) whose ids are all non-empty strings,
  \<open>getExecutionOrder\<close> reports no cycle and returns an order that holds every plan id
  exactly once, in which every dependency of a plan stands strictly before the plan.
\<close>

theorem sorted_order_is_linearization:
  assumes d: "distinct (map sp_planId sps)"
    and closed: "\<forall>sp \<in> set sps. set (sp_dependsOnPlanIds sp) \<subseteq> sp_planId ` set sps"
    and ne: "[] \<notin> sp_planId ` set sps"
    and ac: "acyclic (planEdges sps)"
  shows "\<not> hasCycle (getExecutionOrder sps)
     \<and> distinct (sortedPlanIds (getExecutionOrder sps))
     \<and> set (sortedPlanIds (getExecutionOrder sps)) = sp_planId ` set sps
     \<and> (\<forall>sp \<in> set sps. \<forall>dep \<in> set (sp_dependsOnPlanIds sp).
           \<exists>pre post. sortedPlanIds (getExecutionOrder sps) = pre @ sp_planId sp # post
              \<and> dep \<in> set pre)"
proof -
  let ?g = "stackGraph sps"
  let ?ids = "sortedPlanIds (getExecutionOrder sps)"
  have keys: "fst ` set ?g = sp_planId ` set sps"
    using stackGraph_keys [OF d] by (metis list.set_map)
  have ac': "acyclic (edges ?g)" using ac edges_stackGraph [OF d] by simp
  then have nc: "\<not> hasCycle (getExecutionOrder sps)"
    by (simp add: getExecutionOrder_def hasCycle_iff)
  note kf = stackGraph_final [OF d nc]
  have deps: "depsOf ?g (sp_planId sp) = sp_dependsOnPlanIds sp" if "sp \<in> set sps" for sp
    using find_distinct [OF d that] by (simp add: stackGraph_depsOf [OF d])
  have closed': "\<forall>k \<in> fst ` set ?g. set (depsOf ?g k) \<subseteq> fst ` set ?g"
    unfolding keys using deps closed by auto
  have ne': "[] \<notin> fst ` set ?g" using ne keys by simp
  from kahnFinal_complete [OF kf ac' closed' ne'] keys
  have all: "set ?ids = sp_planId ` set sps" by simp
  from kf have di: "distinct ?ids"
    and before: "\<forall>pre t post. ?ids = pre @ t # post \<longrightarrow> set (depsOf ?g t) \<subseteq> set pre"
    by (simp_all add: kahnFinal_def)
  have lin: "\<forall>sp \<in> set sps. \<forall>dep \<in> set (sp_dependsOnPlanIds sp).
           \<exists>pre post. ?ids = pre @ sp_planId sp # post \<and> dep \<in> set pre"
  proof (intro ballI)
    fix sp dep assume sp: "sp \<in> set sps" and dep: "dep \<in> set (sp_dependsOnPlanIds sp)"
    from sp all have "sp_planId sp \<in> set ?ids" by auto
    then obtain pre post where split: "?ids = pre @ sp_planId sp # post" by (meson split_list)
    with before have "set (depsOf ?g (sp_planId sp)) \<subseteq> set pre" by blast
    with deps [OF sp] dep split show "\<exists>pre post. ?ids = pre @ sp_planId sp # post \<and> dep \<in> set pre"
      by auto
  qed
  from nc di all lin show ?thesis by blast
qed

lemma order_diamond:
  "getExecutionOrder [mkPlan ''D'' [''B'', ''C''], mkPlan ''C'' [''A''], mkPlan ''B'' [''A''], mkPlan ''A'' []]
     = \<lparr>sortedPlanIds = [''A'', ''C'', ''B'', ''D''], hasCycle = False, cycleNodes = None\<rparr>"
  by code_simp

theorem sorted_order_is_linearization_witness:
  "\<not> hasCycle (getExecutionOrder [mkPlan ''D'' [''B'', ''C''], mkPlan ''C'' [''A''], mkPlan ''B'' [''A''], mkPlan ''A'' []])
   \<and> sortedPlanIds (getExecutionOrder [mkPlan ''D'' [''B'', ''C''], mkPlan ''C'' [''A''], mkPlan ''B'' [''A''], mkPlan ''A'' []])
       = [''A'', ''C'', ''B'', ''D'']
   \<and> (\<exists>pre post. sortedPlanIds (getExecutionOrder [mkPlan ''D'' [''B'', ''C''], mkPlan ''C'' [''A''], mkPlan ''B'' [''A''], mkPlan ''A'' []])
          = pre @ ''D'' # post \<and> ''B'' \<in> set pre)"
proof -
  let ?sps = "[mkPlan ''D'' [''B'', ''C''], mkPlan ''C'' [''A''], mkPlan ''B'' [''A''], mkPlan ''A'' []]"
  have 1: "distinct (map sp_planId ?sps)" by (simp add: mkPlan_def)
  have 2: "\<forall>sp \<in> set ?sps. set (sp_dependsOnPlanIds sp) \<subseteq> sp_planId ` set ?sps"
    by (simp add: mkPlan_def)
  have 3: "[] \<notin> sp_planId ` set ?sps" by (simp add: mkPlan_def)
  have "\<not> hasCycle (getExecutionOrder ?sps)" by (simp add: order_diamond)
  then have "acyclic (edges (stackGraph ?sps))"
    by (simp add: getExecutionOrder_def hasCycle_iff)
  then have 4: "acyclic (planEdges ?sps)" using edges_stackGraph [OF 1] by simp
  have m: "mkPlan ''D'' [''B'', ''C''] \<in> set ?sps" by simp
  have b: "''B'' \<in> set (sp_dependsOnPlanIds (mkPlan ''D'' [''B'', ''C'']))" by (simp add: mkPlan_def)
  have i: "sp_planId (mkPlan ''D'' [''B'', ''C'']) = ''D''" by (simp add: mkPlan_def)
  from sorted_order_is_linearization [OF 1 2 3 4] m b
  have "\<exists>pre post. sortedPlanIds (getExecutionOrder ?sps) = pre @ sp_planId (mkPlan ''D'' [''B'', ''C'']) # post
      \<and> ''B'' \<in> set pre" by blast
  then have "\<exists>pre post. sortedPlanIds (getExecutionOrder ?sps) = pre @ ''D'' # post \<and> ''B'' \<in> set pre"
    unfolding i .
  then show ?thesis using order_diamond by simp
qed

theorem empty_id_dropped_counterexample:
  "distinct (map sp_planId [mkPlan '''' [], mkPlan ''B'' ['''']])
   \<and> set (sp_dependsOnPlanIds (mkPlan '''' [])) \<subseteq> sp_planId ` set [mkPlan '''' [], mkPlan ''B'' ['''']]
   \<and> set (sp_dependsOnPlanIds (mkPlan ''B'' [''''])) \<subseteq> sp_planId ` set [mkPlan '''' [], mkPlan ''B'' ['''']]
   \<and> getExecutionOrder [mkPlan '''' [], mkPlan ''B'' ['''']]
        = \<lparr>sortedPlanIds = [], hasCycle = False, cycleNodes = None\<rparr>"
proof -
  have "getExecutionOrder [mkPlan '''' [], mkPlan ''B'' ['''']]
        = \<lparr>sortedPlanIds = [], hasCycle = False, cycleNodes = None\<rparr>"
    by code_simp
  then show ?thesis by (simp add: mkPlan_def)
qed

lemma stackGraph_roots:
  assumes d: "distinct (map sp_planId sps)"
  shows "filter (\<lambda>k. depsOf (stackGraph sps) k = []) (map fst (stackGraph sps))
       = map sp_planId (filter (\<lambda>sp. sp_dependsOnPlanIds sp = []) sps)"
proof -
  have "filter (\<lambda>k. depsOf (stackGraph sps) k = []) (map sp_planId sps)
      = map sp_planId (filter ((\<lambda>k. depsOf (stackGraph sps) k = []) \<circ> sp_planId) sps)"
    by (simp add: filter_map)
  also have "\<dots> = map sp_planId (filter (\<lambda>sp. sp_dependsOnPlanIds sp = []) sps)"
  proof -
    have "filter ((\<lambda>k. depsOf (stackGraph sps) k = []) \<circ> sp_planId) sps
        = filter (\<lambda>sp. sp_dependsOnPlanIds sp = []) sps"
    proof (rule filter_cong [OF refl])
      fix sp assume "sp \<in> set sps"
      from find_distinct [OF d this]
      show "((\<lambda>k. depsOf (stackGraph sps) k = []) \<circ> sp_planId) sp = (sp_dependsOnPlanIds sp = [])"
        by (simp add: stackGraph_depsOf [OF d])
    qed
    then show ?thesis by simp
  qed
  finally show ?thesis by (simp add: stackGraph_keys [OF d])
qed

text \<open>
  C1 (as amended). Ties are broken by queue position, not by id. At every step of the
  loop the node emitted next is the head of the queue, and what is in the queue is emitted
  in queue order before anything that enters the queue later (an empty-string id is taken
  from the queue and dropped). The queue is seeded in map insertion order: for stack plans
  with unique ids and no cycle, the order returned by \<open>getExecutionOrder\<close> begins with the
  plans that have no dependencies, in the order of the stack's plan list. The order is a
  function of that list, so sorting the same list twice gives the same order.
\<close>

theorem ready_nodes_leave_in_queue_order:
  assumes d: "distinct (map sp_planId sps)"
    and nc: "\<not> hasCycle (getExecutionOrder sps)"
  shows "(\<exists>rest. sortedPlanIds (getExecutionOrder sps) =
            filter (\<lambda>n. n \<noteq> []) (map sp_planId (filter (\<lambda>sp. sp_dependsOnPlanIds sp = []) sps)) @ rest)
     \<and> (\<forall>queue inDegree done_ids. \<exists>rest.
           kahn_loop (stackGraph sps) queue inDegree done_ids =
             done_ids @ filter (\<lambda>n. n \<noteq> []) queue @ rest)"
proof -
  let ?g = "stackGraph sps"
  from nc have "acyclic (edges ?g)" by (simp add: getExecutionOrder_def hasCycle_iff)
  from topologicalSort_acyclic [OF this]
  have s: "sortedPlanIds (getExecutionOrder sps) = kahn_loop ?g (seedQueue (initDegrees ?g)) (initDegrees ?g) []"
    by (simp add: getExecutionOrder_def)
  have q: "seedQueue (initDegrees ?g) = map sp_planId (filter (\<lambda>sp. sp_dependsOnPlanIds sp = []) sps)"
    using seedQueue_roots [OF stackGraph_consistent [OF d]] stackGraph_roots [OF d] by simp
  from kahn_loop_fifo [of ?g "seedQueue (initDegrees ?g)" "initDegrees ?g" "[]"] s q
  have "\<exists>rest. sortedPlanIds (getExecutionOrder sps) =
            filter (\<lambda>n. n \<noteq> []) (map sp_planId (filter (\<lambda>sp. sp_dependsOnPlanIds sp = []) sps)) @ rest"
    by simp
  moreover have "\<forall>queue inDegree done_ids. \<exists>rest.
           kahn_loop ?g queue inDegree done_ids = done_ids @ filter (\<lambda>n. n \<noteq> []) queue @ rest"
    using kahn_loop_fifo by blast
  ultimately show ?thesis by blast
qed

lemma order_BA:
  "getExecutionOrder [mkPlan ''B'' [], mkPlan ''A'' []] =
     \<lparr>sortedPlanIds = [''B'', ''A''], hasCycle = False, cycleNodes = None\<rparr>"
  by code_simp

theorem ready_nodes_leave_in_queue_order_witness:
  "\<exists>rest. sortedPlanIds (getExecutionOrder [mkPlan ''B'' [], mkPlan ''A'' []]) = [''B'', ''A''] @ rest"
proof -
  let ?sps = "[mkPlan ''B'' [], mkPlan ''A'' []]"
  have 1: "distinct (map sp_planId ?sps)" by (simp add: mkPlan_def)
  have 2: "\<not> hasCycle (getExecutionOrder ?sps)" by (simp add: order_BA)
  have 3: "filter (\<lambda>n. n \<noteq> []) (map sp_planId (filter (\<lambda>sp. sp_dependsOnPlanIds sp = []) ?sps)) = [''B'', ''A'']"
    by (simp add: mkPlan_def)
  from ready_nodes_leave_in_queue_order [OF 1 2] show ?thesis unfolding 3 by blast
qed

theorem lexicographic_tie_break_counterexample:
  "sortedPlanIds (getExecutionOrder [mkPlan ''B'' [], mkPlan ''A'' []]) = [''B'', ''A'']
   \<and> (''A''::string) < ''B''
   \<and> seedQueue (initDegrees (stackGraph [mkPlan ''B'' [], mkPlan ''A'' []])) = [''B'', ''A'']
   \<and> sortedPlanIds (getExecutionOrder [mkPlan ''A'' [], mkPlan ''B'' []]) = [''A'', ''B'']"
proof -
  have "(''A''::string) < ''B''" by code_simp
  moreover have "seedQueue (initDegrees (stackGraph [mkPlan ''B'' [], mkPlan ''A'' []])) = [''B'', ''A'']"
    by code_simp
  ultimately show ?thesis by (simp add: order_BA order_A_B)
qed

lemma orderFrom_suffix: "\<exists>pre. xs = pre @ orderFrom f xs"
proof -
  have "\<exists>pre. xs = pre @ drop k xs" for k by (metis append_take_drop_id)
  then have "\<exists>pre. xs = pre @ slice xs i" for i by (simp add: slice_def Let_def)
  then show ?thesis by (cases f) (auto simp: orderFrom_def)
qed

lemma run_facts:
  assumes st: "loadStack (o_stackName opts) w = Some stack"
    and ok: "statusNameOk (o_stackName opts) w"
    and nd: "\<not> o_dryRun opts"
    and di: "distinct (map sp_planId (plans stack))"
    and np: "''__proto__'' \<notin> set (planIdsOf stack)"
    and run: "executeStack worker opts w = (Inr r, w')"
  shows "executionOrder r = runOrder opts stack
     \<and> runFacts (o_stackName opts) stack w w' (runOrder opts stack)"
proof -
  let ?name = "o_stackName opts"
  let ?ids = "planIdsOf stack"
  let ?order = "runOrder opts stack"
  let ?w1 = "setStackRunning ?name ?ids True w"
  let ?C0 = "runSeed ?name stack w"
  have nc: "\<not> hasCycle (getExecutionOrder (plans stack))"
    using run st by (auto simp: executeStack_def Let_def split: if_splits)
  have kf: "kahnFinal (stackGraph (plans stack)) (sortedPlanIds (getExecutionOrder (plans stack)))"
    by (rule stackGraph_final [OF di nc])
  obtain pre0 where pre0: "sortedPlanIds (getExecutionOrder (plans stack)) = pre0 @ ?order"
    using orderFrom_suffix [of "sortedPlanIds (getExecutionOrder (plans stack))" "o_fromPlanId opts"]
    by (auto simp: runOrder_def)
  have "set (sortedPlanIds (getExecutionOrder (plans stack))) \<subseteq> fst ` set (stackGraph (plans stack))"
    using kf by (simp add: kahnFinal_def)
  moreover have "fst ` set (stackGraph (plans stack)) = set ?ids"
    using stackGraph_keys [OF di] by (metis list.set_map planIdsOf_def)
  ultimately have "set ?order \<subseteq> set ?ids" using pre0 by auto
  with np have npo: "''__proto__'' \<notin> set ?order" by auto
  from executeStack_Inr [OF st ok nd npo run]
  obtain C' w2 where
    p: "processPlans worker ?name stack ?ids ?order (?C0, []) ?w1 = (Inr (C', results r), w2)"
    and l: "loopEffect ?name ?ids ?order ?C0 ?w1 C' w2"
    and r: "executionOrder r = ?order"
    and w': "w' = setStackRunning ?name ?ids False w2"
    by blast
  note L = loopEffectD [OF l]
  have g1: "good ?name ?w1" using st ok good_setStackRunning by (simp add: good_def)
  have ok2: "statusNameOk ?name w2" using L(1) by (simp add: good_def)
  have ps1: "planStatusOf ?name ?ids ?w1 q = planStatusOf ?name ?ids w q" for q
    by (rule planStatusOf_setStackRunning [OF ok])
  have ps2: "planStatusOf ?name ?ids w' q = planStatusOf ?name ?ids w2 q" for q
    unfolding w' by (rule planStatusOf_setStackRunning [OF ok2])
  have si1: "statusIs ?name ?ids ?w1 q s = statusIs ?name ?ids w q s" for q s
    by (simp add: statusIs_def ps1)
  have si2: "statusIs ?name ?ids w' q s = statusIs ?name ?ids w2 q s" for q s
    by (simp add: statusIs_def ps2)
  have seed: "q \<in> ?C0 \<longleftrightarrow> q \<in> set ?ids \<and> statusIs ?name ?ids w q completed" for q
    unfolding runSeed_def seedCompleted_iff
    using si1 [of q completed]
    by (auto simp: planIdsOf_def statusIs_def planStatusOf_def split: option.splits)
  from L(8) obtain ys where ys: "executed w2 = executed ?w1 @ ys" "set ys \<subseteq> set ?order - ?C0" by blast
  have ex: "executed w' = executed w @ ys" using ys w' by (simp add: setStackRunning_frame)
  then have ein: "executedIn w w' = ys" by (rule executedIn_append)
  have inC': "statusIs ?name ?ids w' q completed" if "q \<in> C'" for q
  proof (cases "q \<in> ?C0")
    case True
    then have "statusIs ?name ?ids w q completed" using seed by simp
    moreover from True L(3) have "planStatusOf ?name ?ids w2 q = planStatusOf ?name ?ids ?w1 q" by blast
    ultimately show ?thesis by (simp add: statusIs_def ps1 ps2)
  next
    case False
    with L(9) that show ?thesis by (auto simp: si2)
  qed
  have toC': "q \<in> C'" if "statusIs ?name ?ids w' q completed" "q \<in> set ?ids" for q
  proof (rule ccontr)
    assume n: "q \<notin> C'"
    from that(1) have c2: "statusIs ?name ?ids w2 q completed" by (simp add: si2)
    with L(10) n have "planStatusOf ?name ?ids w2 q = planStatusOf ?name ?ids ?w1 q" by blast
    with c2 have "statusIs ?name ?ids w q completed" by (simp add: statusIs_def ps1)
    with that(2) seed have "q \<in> ?C0" by simp
    with L(4) n show False by auto
  qed
  from kf pre0 have dord: "distinct ?order" by (simp add: kahnFinal_def)
  have deps: "depsOf (stackGraph (plans stack)) q = stackDeps stack q" for q
    by (simp add: stackGraph_depsOf [OF di] stackDeps_def)
  have A: "\<exists>ys. executed w' = executed w @ ys \<and> set ys \<subseteq> set ?order"
    using ex ys by auto
  have B: "\<forall>p. statusIs ?name ?ids w p completed \<and> p \<in> set ?ids \<longrightarrow>
           p \<notin> set (executedIn w w')
           \<and> planStatusOf ?name ?ids w' p = planStatusOf ?name ?ids w p"
  proof (intro allI impI)
    fix p assume a: "statusIs ?name ?ids w p completed \<and> p \<in> set ?ids"
    then have pc: "p \<in> ?C0" using seed by simp
    with ys ein have "p \<notin> set (executedIn w w')" by auto
    moreover from pc L(3) have "planStatusOf ?name ?ids w2 p = planStatusOf ?name ?ids ?w1 p" by blast
    ultimately show "p \<notin> set (executedIn w w')
           \<and> planStatusOf ?name ?ids w' p = planStatusOf ?name ?ids w p"
      by (simp add: ps1 ps2)
  qed
  have at: "\<exists>zs. executed w2 = executed ?w1 @ zs \<and> set zs \<subseteq> set (pre @ q # post) - ?C0
      \<and> ((\<exists>d \<in> set (stackDeps stack q). d \<notin> C') \<longrightarrow>
            q \<notin> set zs \<and> q \<notin> C' \<and> (\<exists>t. planStatusOf ?name ?ids w2 q = Some (skippedEntry q t)))
      \<and> ((\<forall>d \<in> set (stackDeps stack q). d \<in> C' \<and> d \<notin> set (q # post)) \<longrightarrow>
            q \<in> set zs \<and> (\<exists>result t. planStatusOf ?name ?ids w2 q = Some (resultEntry result t)
                \<and> (r_executionStatus result = completed \<or> r_executionStatus result = failed)
                \<and> (q \<in> C') = (r_executionStatus result = completed)))"
    if "?order = pre @ q # post" "q \<notin> ?C0" for pre q post
    using loop_at [OF g1 _ _ that(2), where pre = pre and post = post and worker = worker
        and stack = stack and planIds = ?ids and res = "[]" and C' = C' and res' = "results r"
        and w' = w2] p dord that(1) npo
    by simp
  have C: "\<forall>q \<in> set ?order.
           \<not> statusIs ?name ?ids w q completed
           \<and> (\<exists>a \<in> set (stackDeps stack q). \<not> statusIs ?name ?ids w' a completed) \<longrightarrow>
           q \<notin> set (executedIn w w')
           \<and> (\<exists>t. planStatusOf ?name ?ids w' q = Some (skippedEntry q t))"
  proof (intro ballI impI)
    fix q assume q: "q \<in> set ?order"
      and h: "\<not> statusIs ?name ?ids w q completed
           \<and> (\<exists>a \<in> set (stackDeps stack q). \<not> statusIs ?name ?ids w' a completed)"
    from q obtain pre post where sp: "?order = pre @ q # post" by (meson split_list)
    from h seed have q0: "q \<notin> ?C0" by simp
    from h obtain a where a: "a \<in> set (stackDeps stack q)" "\<not> statusIs ?name ?ids w' a completed" by blast
    with inC' have "a \<notin> C'" by blast
    with a(1) have un: "\<exists>d \<in> set (stackDeps stack q). d \<notin> C'" by blast
    from at [OF sp q0] obtain zs where zs: "executed w2 = executed ?w1 @ zs"
      and sk: "(\<exists>d \<in> set (stackDeps stack q). d \<notin> C') \<longrightarrow>
            q \<notin> set zs \<and> q \<notin> C' \<and> (\<exists>t. planStatusOf ?name ?ids w2 q = Some (skippedEntry q t))"
      by blast
    from zs ys(1) have "zs = ys" by simp
    with sk un ein show "q \<notin> set (executedIn w w')
           \<and> (\<exists>t. planStatusOf ?name ?ids w' q = Some (skippedEntry q t))"
      by (simp add: ps2)
  qed
  have D: "\<forall>q \<in> set ?order.
           \<not> statusIs ?name ?ids w q completed
           \<and> (\<forall>a \<in> set (stackDeps stack q).
                 a \<in> set ?ids \<and> statusIs ?name ?ids w' a completed) \<longrightarrow>
           q \<in> set (executedIn w w')
           \<and> (statusIs ?name ?ids w' q completed \<or> statusIs ?name ?ids w' q failed)"
  proof (intro ballI impI)
    fix q assume q: "q \<in> set ?order"
      and h: "\<not> statusIs ?name ?ids w q completed
           \<and> (\<forall>a \<in> set (stackDeps stack q).
                 a \<in> set ?ids \<and> statusIs ?name ?ids w' a completed)"
    from q obtain pre post where sp: "?order = pre @ q # post" by (meson split_list)
    from h seed have q0: "q \<notin> ?C0" by simp
    have whole: "sortedPlanIds (getExecutionOrder (plans stack)) = (pre0 @ pre) @ q # post"
      using pre0 sp by simp
    from kf have dall: "distinct (sortedPlanIds (getExecutionOrder (plans stack)))"
      and bef: "\<forall>pre t post. sortedPlanIds (getExecutionOrder (plans stack)) = pre @ t # post \<longrightarrow>
           set (depsOf (stackGraph (plans stack)) t) \<subseteq> set pre"
      by (simp_all add: kahnFinal_def)
    from bef whole have db: "set (stackDeps stack q) \<subseteq> set (pre0 @ pre)" unfolding deps by blast
    have dn: "a \<notin> set (q # post)" if "a \<in> set (stackDeps stack q)" for a
    proof -
      from db that have "a \<in> set (pre0 @ pre)" by auto
      with dall whole show ?thesis by auto
    qed
    have met: "\<forall>d \<in> set (stackDeps stack q). d \<in> C' \<and> d \<notin> set (q # post)"
      using h toC' dn by blast
    from at [OF sp q0] obtain zs where zs: "executed w2 = executed ?w1 @ zs"
      and rn: "(\<forall>d \<in> set (stackDeps stack q). d \<in> C' \<and> d \<notin> set (q # post)) \<longrightarrow>
            q \<in> set zs \<and> (\<exists>result t. planStatusOf ?name ?ids w2 q = Some (resultEntry result t)
                \<and> (r_executionStatus result = completed \<or> r_executionStatus result = failed)
                \<and> (q \<in> C') = (r_executionStatus result = completed))"
      by blast
    from zs ys(1) have zy: "zs = ys" by simp
    from rn met obtain result t where res: "q \<in> set zs"
      "planStatusOf ?name ?ids w2 q = Some (resultEntry result t)"
      "r_executionStatus result = completed \<or> r_executionStatus result = failed"
      by blast
    from res(2) have "statusIs ?name ?ids w' q s = (r_executionStatus result = s)" for s
      unfolding si2 by (rule statusIs_resultEntry)
    with res zy ein show "q \<in> set (executedIn w w')
           \<and> (statusIs ?name ?ids w' q completed \<or> statusIs ?name ?ids w' q failed)"
      by auto
  qed
  from r A B C D show ?thesis unfolding runFacts_def by blast
qed

lemma runFactsD:
  assumes "runFacts name stack w w' order"
  shows "\<exists>ys. executed w' = executed w @ ys \<and> set ys \<subseteq> set order"
    and "\<forall>p. statusIs name (planIdsOf stack) w p completed \<and> p \<in> set (planIdsOf stack) \<longrightarrow>
           p \<notin> set (executedIn w w')
           \<and> planStatusOf name (planIdsOf stack) w' p = planStatusOf name (planIdsOf stack) w p"
    and "\<forall>q \<in> set order.
           \<not> statusIs name (planIdsOf stack) w q completed
           \<and> (\<exists>a \<in> set (stackDeps stack q). \<not> statusIs name (planIdsOf stack) w' a completed) \<longrightarrow>
           q \<notin> set (executedIn w w')
           \<and> (\<exists>t. planStatusOf name (planIdsOf stack) w' q = Some (skippedEntry q t))"
    and "\<forall>q \<in> set order.
           \<not> statusIs name (planIdsOf stack) w q completed
           \<and> (\<forall>a \<in> set (stackDeps stack q).
                 a \<in> set (planIdsOf stack) \<and> statusIs name (planIdsOf stack) w' a completed) \<longrightarrow>
           q \<in> set (executedIn w w')
           \<and> (statusIs name (planIdsOf stack) w' q completed
               \<or> statusIs name (planIdsOf stack) w' q failed)"
  using assms unfolding runFacts_def by - (elim conjE, assumption)+

lemma statusIs_unique:
  "statusIs name planIds w q s \<Longrightarrow> statusIs name planIds w q s' \<Longrightarrow> s = s'"
  by (auto simp: statusIs_def split: option.splits)

lemma runSeed_iff:
  assumes ok: "statusNameOk name w"
  shows "q \<in> runSeed name stack w \<longleftrightarrow>
     q \<in> set (planIdsOf stack) \<and> statusIs name (planIdsOf stack) w q completed"
  unfolding runSeed_def seedCompleted_iff
  using planStatusOf_setStackRunning [OF ok, of "planIdsOf stack" True q]
  by (auto simp: planIdsOf_def statusIs_def planStatusOf_def split: option.splits)

lemma executeStack_returns:
  assumes st: "loadStack (o_stackName opts) w = Some stack"
    and ok: "statusNameOk (o_stackName opts) w"
    and nc: "\<not> hasCycle (getExecutionOrder (plans stack))"
    and nr: "neverRejects worker"
  shows "\<exists>r w'. executeStack worker opts w = (Inr r, w')"
proof (cases "o_dryRun opts")
  case True
  from executeStack_dry [OF st nc True, of worker] show ?thesis by blast
next
  case False
  from runLoop_returns [OF st ok nr] obtain C res w2 where
    "runLoop worker opts stack w = (Inr (C, res), w2)" by blast
  with executeStack_run [OF st nc False, of worker] show ?thesis by simp
qed

text \<open>
  C6 (as amended). Let the stack file exist, let the status file, if there is one, carry
  the name of the stack, let the plan ids of the stack be unique and none of them be
  \<open>__proto__\<close>. A non-dry run of \<open>executeStack\<close> returns whenever the stack has no cycle
  and no call of \<open>executePlan\<close> rejects. In a non-dry run that returns, every plan of the
  execution order that was not already \<open>completed\<close> when the run started and has a
  dependency that does not end the run \<open>completed\<close> (it failed, or was itself skipped, or
  never ran) is not handed to \<open>executePlan\<close>, and its persisted status after the run is
  \<open>skipped\<close> with the message \<open>Skipped due to failed dependencies.\<close> and no exit code; since
  a skipped plan does not end \<open>completed\<close>, the same holds for its own dependents. Every
  plan of the order that was not already \<open>completed\<close> and whose dependencies are all plans
  of the stack that end the run \<open>completed\<close> is handed to \<open>executePlan\<close> and ends \<open>completed\<close>
  or \<open>failed\<close>.
\<close>

theorem unmet_dependency_is_skipped:
  assumes st: "loadStack name w = Some stack"
    and ok: "statusNameOk name w"
    and di: "distinct (map sp_planId (plans stack))"
    and np: "''__proto__'' \<notin> set (planIdsOf stack)"
  shows "(neverRejects worker \<and> \<not> hasCycle (getExecutionOrder (plans stack)) \<longrightarrow>
            (\<exists>r w'. executeStack worker
                       \<lparr>o_stackName = name, o_dryRun = False, o_fromPlanId = fromId\<rparr> w = (Inr r, w')))
     \<and> (\<forall>r w'. executeStack worker \<lparr>o_stackName = name, o_dryRun = False, o_fromPlanId = fromId\<rparr> w
                  = (Inr r, w') \<longrightarrow>
          (\<forall>B \<in> set (executionOrder r).
              \<not> statusIs name (planIdsOf stack) w B completed
              \<and> (\<exists>A \<in> set (stackDeps stack B). \<not> statusIs name (planIdsOf stack) w' A completed) \<longrightarrow>
              B \<notin> set (executedIn w w')
              \<and> (\<exists>ps. planStatusOf name (planIdsOf stack) w' B = Some ps
                    \<and> executionStatus ps = skipped \<and> errorMessage ps = Some skipMessage
                    \<and> exitCode ps = None))
          \<and> (\<forall>T \<in> set (executionOrder r).
              \<not> statusIs name (planIdsOf stack) w T completed
              \<and> (\<forall>d \<in> set (stackDeps stack T).
                    d \<in> set (planIdsOf stack) \<and> statusIs name (planIdsOf stack) w' d completed) \<longrightarrow>
              T \<in> set (executedIn w w')
              \<and> (statusIs name (planIdsOf stack) w' T completed
                  \<or> statusIs name (planIdsOf stack) w' T failed)))"
proof (intro conjI allI impI)
  let ?opts = "\<lparr>o_stackName = name, o_dryRun = False, o_fromPlanId = fromId\<rparr>"
  have st': "loadStack (o_stackName ?opts) w = Some stack" using st by simp
  have ok': "statusNameOk (o_stackName ?opts) w" using ok by simp
  have nd: "\<not> o_dryRun ?opts" by simp
  { assume "neverRejects worker \<and> \<not> hasCycle (getExecutionOrder (plans stack))"
    then show "\<exists>r w'. executeStack worker ?opts w = (Inr r, w')"
      using executeStack_returns [OF st' ok', of worker] by blast }
  fix r w' assume run: "executeStack worker ?opts w = (Inr r, w')"
  from run_facts [OF st' ok' nd di np run]
  have r: "executionOrder r = runOrder ?opts stack"
    and f: "runFacts name stack w w' (runOrder ?opts stack)" by simp_all
  note F = runFactsD [OF f]
  show "\<forall>B \<in> set (executionOrder r).
              \<not> statusIs name (planIdsOf stack) w B completed
              \<and> (\<exists>A \<in> set (stackDeps stack B). \<not> statusIs name (planIdsOf stack) w' A completed) \<longrightarrow>
              B \<notin> set (executedIn w w')
              \<and> (\<exists>ps. planStatusOf name (planIdsOf stack) w' B = Some ps
                    \<and> executionStatus ps = skipped \<and> errorMessage ps = Some skipMessage
                    \<and> exitCode ps = None)"
  proof (intro ballI impI)
    fix B assume B: "B \<in> set (executionOrder r)"
      and h: "\<not> statusIs name (planIdsOf stack) w B completed
            \<and> (\<exists>A \<in> set (stackDeps stack B). \<not> statusIs name (planIdsOf stack) w' A completed)"
    from F(3) B h r obtain t where "B \<notin> set (executedIn w w')"
      "planStatusOf name (planIdsOf stack) w' B = Some (skippedEntry B t)" by auto
    then show "B \<notin> set (executedIn w w')
            \<and> (\<exists>ps. planStatusOf name (planIdsOf stack) w' B = Some ps
                  \<and> executionStatus ps = skipped \<and> errorMessage ps = Some skipMessage
                  \<and> exitCode ps = None)"
      by (simp add: skippedEntry_def)
  qed
  from F(4) r show "\<forall>T \<in> set (executionOrder r).
              \<not> statusIs name (planIdsOf stack) w T completed
              \<and> (\<forall>d \<in> set (stackDeps stack T).
                    d \<in> set (planIdsOf stack) \<and> statusIs name (planIdsOf stack) w' d completed) \<longrightarrow>
              T \<in> set (executedIn w w')
              \<and> (statusIs name (planIdsOf stack) w' T completed
                  \<or> statusIs name (planIdsOf stack) w' T failed)"
    by simp
qed

text \<open>
  C7 (as amended). Let the stack file exist, let the status file, if there is one, carry
  the name of the stack, let the plan ids of the stack be unique and none of them be
  \<open>__proto__\<close>. A non-dry run of \<open>executeStack\<close> returns whenever the stack has no cycle
  and no call of \<open>executePlan\<close> rejects. In a non-dry run that returns, every plan of the
  stack whose persisted status is \<open>completed\<close> when the run starts is in the seeded set, is
  not handed to \<open>executePlan\<close>, and keeps its persisted status entry unchanged; every plan
  of the execution order of the run (the whole sorted order unless \<open>fromPlanId\<close> truncates
  it) whose persisted status was \<open>failed\<close> or \<open>skipped\<close> and whose dependencies are all plans
  of the stack that end the run \<open>completed\<close> is handed to \<open>executePlan\<close> again.
\<close>

theorem completed_kept_failed_retried:
  assumes st: "loadStack name w = Some stack"
    and ok: "statusNameOk name w"
    and di: "distinct (map sp_planId (plans stack))"
    and np: "''__proto__'' \<notin> set (planIdsOf stack)"
  shows "(neverRejects worker \<and> \<not> hasCycle (getExecutionOrder (plans stack)) \<longrightarrow>
            (\<exists>r w'. executeStack worker
                       \<lparr>o_stackName = name, o_dryRun = False, o_fromPlanId = fromId\<rparr> w = (Inr r, w')))
     \<and> (\<forall>r w'. executeStack worker \<lparr>o_stackName = name, o_dryRun = False, o_fromPlanId = fromId\<rparr> w
                  = (Inr r, w') \<longrightarrow>
          (\<forall>p \<in> set (planIdsOf stack).
              statusIs name (planIdsOf stack) w p completed \<longrightarrow>
              p \<in> runSeed name stack w
              \<and> p \<notin> set (executedIn w w')
              \<and> planStatusOf name (planIdsOf stack) w' p = planStatusOf name (planIdsOf stack) w p)
          \<and> (\<forall>T \<in> set (executionOrder r).
              (statusIs name (planIdsOf stack) w T failed \<or> statusIs name (planIdsOf stack) w T skipped)
              \<and> (\<forall>d \<in> set (stackDeps stack T).
                    d \<in> set (planIdsOf stack) \<and> statusIs name (planIdsOf stack) w' d completed) \<longrightarrow>
              T \<in> set (executedIn w w')))"
proof (intro conjI allI impI)
  let ?opts = "\<lparr>o_stackName = name, o_dryRun = False, o_fromPlanId = fromId\<rparr>"
  have st': "loadStack (o_stackName ?opts) w = Some stack" using st by simp
  have ok': "statusNameOk (o_stackName ?opts) w" using ok by simp
  have nd: "\<not> o_dryRun ?opts" by simp
  { assume "neverRejects worker \<and> \<not> hasCycle (getExecutionOrder (plans stack))"
    then show "\<exists>r w'. executeStack worker ?opts w = (Inr r, w')"
      using executeStack_returns [OF st' ok', of worker] by blast }
  fix r w' assume run: "executeStack worker ?opts w = (Inr r, w')"
  from run_facts [OF st' ok' nd di np run]
  have r: "executionOrder r = runOrder ?opts stack"
    and f: "runFacts name stack w w' (runOrder ?opts stack)" by simp_all
  note F = runFactsD [OF f]
  show "\<forall>p \<in> set (planIdsOf stack).
              statusIs name (planIdsOf stack) w p completed \<longrightarrow>
              p \<in> runSeed name stack w
              \<and> p \<notin> set (executedIn w w')
              \<and> planStatusOf name (planIdsOf stack) w' p = planStatusOf name (planIdsOf stack) w p"
    using F(2) runSeed_iff [OF ok] by blast
  show "\<forall>T \<in> set (executionOrder r).
              (statusIs name (planIdsOf stack) w T failed \<or> statusIs name (planIdsOf stack) w T skipped)
              \<and> (\<forall>d \<in> set (stackDeps stack T).
                    d \<in> set (planIdsOf stack) \<and> statusIs name (planIdsOf stack) w' d completed) \<longrightarrow>
              T \<in> set (executedIn w w')"
  proof (intro ballI impI)
    fix T assume T: "T \<in> set (executionOrder r)"
      and h: "(statusIs name (planIdsOf stack) w T failed \<or> statusIs name (planIdsOf stack) w T skipped)
            \<and> (\<forall>d \<in> set (stackDeps stack T).
                  d \<in> set (planIdsOf stack) \<and> statusIs name (planIdsOf stack) w' d completed)"
    then have "\<not> statusIs name (planIdsOf stack) w T completed"
      using statusIs_unique [of name "planIdsOf stack" w T completed] by auto
    with F(4) T h r show "T \<in> set (executedIn w w')" by auto
  qed
qed

lemma order_chain:
  "getExecutionOrder [mkPlan ''A'' [], mkPlan ''B'' [''A''], mkPlan ''C'' [''B''], mkPlan ''D'' []] =
     \<lparr>sortedPlanIds = [''A'', ''D'', ''B'', ''C''], hasCycle = False, cycleNodes = None\<rparr>"
  by code_simp

lemma chain_run:
  "case executeStack (failWorker ''A'') \<lparr>o_stackName = ''s'', o_dryRun = False, o_fromPlanId = None\<rparr>
          (mkWorld chainStack) of
     (Inr r, w') \<Rightarrow> executionOrder r = [''A'', ''D'', ''B'', ''C'']
         \<and> statusIs ''s'' [''A'', ''B'', ''C'', ''D''] w' ''A'' failed
   | (Inl e, w') \<Rightarrow> False"
  using order_chain by (simp add: chainStack_def run_defs statusIs_def planStatusOf_def)

theorem unmet_dependency_is_skipped_witness:
  "\<exists>r w'. executeStack (failWorker ''A'') \<lparr>o_stackName = ''s'', o_dryRun = False, o_fromPlanId = None\<rparr>
          (mkWorld chainStack) = (Inr r, w')
     \<and> statusIs ''s'' [''A'', ''B'', ''C'', ''D''] w' ''A'' failed
     \<and> statusIs ''s'' [''A'', ''B'', ''C'', ''D''] w' ''B'' skipped
     \<and> statusIs ''s'' [''A'', ''B'', ''C'', ''D''] w' ''C'' skipped
     \<and> set (executedIn (mkWorld chainStack) w') = {''A'', ''D''}"
proof -
  let ?w = "mkWorld chainStack"
  let ?ids = "[''A'', ''B'', ''C'', ''D'']"
  let ?opts = "\<lparr>o_stackName = ''s'', o_dryRun = False, o_fromPlanId = None\<rparr>"
  have st: "loadStack ''s'' ?w = Some chainStack"
    by (simp add: loadStack_def mkWorld_def chainStack_def mkStack_def)
  have ok: "statusNameOk ''s'' ?w" by (simp add: statusNameOk_def mkWorld_def)
  have di: "distinct (map sp_planId (plans chainStack))"
    by (simp add: chainStack_def mkStack_def mkPlan_def)
  have ids: "planIdsOf chainStack = ?ids" by (simp add: planIdsOf_def chainStack_def mkStack_def mkPlan_def)
  have np: "''__proto__'' \<notin> set (planIdsOf chainStack)" unfolding ids by simp
  have nc: "\<not> hasCycle (getExecutionOrder (plans chainStack))"
    by (simp add: chainStack_def mkStack_def order_chain)
  note T0 = unmet_dependency_is_skipped [OF st ok di np, of "failWorker ''A''" None, unfolded ids]
  from T0 neverRejects_failWorker nc
  obtain r w' where run: "executeStack (failWorker ''A'') ?opts ?w = (Inr r, w')" by blast
  from chain_run run have ord: "executionOrder r = [''A'', ''D'', ''B'', ''C'']"
    and af: "statusIs ''s'' ?ids w' ''A'' failed" by simp_all
  from T0 run have T: "(\<forall>B \<in> set (executionOrder r).
              \<not> statusIs ''s'' ?ids ?w B completed
              \<and> (\<exists>A \<in> set (stackDeps chainStack B). \<not> statusIs ''s'' ?ids w' A completed) \<longrightarrow>
              B \<notin> set (executedIn ?w w')
              \<and> (\<exists>ps. planStatusOf ''s'' ?ids w' B = Some ps
                    \<and> executionStatus ps = skipped \<and> errorMessage ps = Some skipMessage
                    \<and> exitCode ps = None))
          \<and> (\<forall>T \<in> set (executionOrder r).
              \<not> statusIs ''s'' ?ids ?w T completed
              \<and> (\<forall>d \<in> set (stackDeps chainStack T).
                    d \<in> set ?ids \<and> statusIs ''s'' ?ids w' d completed) \<longrightarrow>
              T \<in> set (executedIn ?w w')
              \<and> (statusIs ''s'' ?ids w' T completed \<or> statusIs ''s'' ?ids w' T failed))"
    by blast
  have fresh: "\<not> statusIs ''s'' ?ids ?w q completed" for q
    by (simp add: statusIs_def planStatusOf_def loadStackStatus_def mkWorld_def createDefaultStatus_def
        fromEntries_def pendingStatus_def)
  have deps: "stackDeps chainStack ''A'' = []" "stackDeps chainStack ''B'' = [''A'']"
    "stackDeps chainStack ''C'' = [''B'']" "stackDeps chainStack ''D'' = []"
    by (simp_all add: stackDeps_def chainStack_def mkStack_def mkPlan_def)
  from af have an: "\<not> statusIs ''s'' ?ids w' ''A'' completed"
    using statusIs_unique [of "''s''" ?ids w' "''A''" failed completed] by auto
  from T fresh [of "''B''"] an deps ord
  have b: "''B'' \<notin> set (executedIn ?w w')" "statusIs ''s'' ?ids w' ''B'' skipped"
    by (auto simp: statusIs_def)
  then have bn: "\<not> statusIs ''s'' ?ids w' ''B'' completed"
    using statusIs_unique [of "''s''" ?ids w' "''B''" skipped completed] by auto
  from T fresh [of "''C''"] bn deps ord
  have c: "''C'' \<notin> set (executedIn ?w w')" "statusIs ''s'' ?ids w' ''C'' skipped"
    by (auto simp: statusIs_def)
  from T fresh [of "''D''"] deps ord have d: "''D'' \<in> set (executedIn ?w w')" by auto
  from T fresh [of "''A''"] deps ord have a: "''A'' \<in> set (executedIn ?w w')" by auto
  have sub: "set (executedIn ?w w') \<subseteq> set (executionOrder r)"
  proof -
    have st': "loadStack (o_stackName ?opts) ?w = Some chainStack" using st by simp
    have ok': "statusNameOk (o_stackName ?opts) ?w" using ok by simp
    from run_facts [OF st' ok' _ di np run] runFactsD(1)
    obtain ys where "executed w' = executed ?w @ ys" "set ys \<subseteq> set (executionOrder r)" by fastforce
    then show ?thesis by (simp add: executedIn_def)
  qed
  with ord a b c d have "set (executedIn ?w w') = {''A'', ''D''}" by auto
  with run af b c show ?thesis by blast
qed

theorem completed_dependent_counterexample:
  "stackDeps (mkStack ''s'' [mkPlan ''A'' [], mkPlan ''B'' [''A'']]) ''B'' = [''A'']
   \<and> (case executeStack (failWorker ''A'') \<lparr>o_stackName = ''s'', o_dryRun = False, o_fromPlanId = None\<rparr>
             (mkWorldWith (mkStack ''s'' [mkPlan ''A'' [], mkPlan ''B'' [''A'']]) [(''B'', completed)] False) of
         (Inr r, w') \<Rightarrow> executionOrder r = [''A'', ''B'']
            \<and> statusIs ''s'' [''A'', ''B''] w' ''A'' failed
            \<and> statusIs ''s'' [''A'', ''B''] w' ''B'' completed
            \<and> \<not> statusIs ''s'' [''A'', ''B''] w' ''B'' skipped
       | (Inl e, w') \<Rightarrow> False)"
  using order_AB by (simp add: run_defs statusIs_def planStatusOf_def stackDeps_def)

theorem completed_kept_failed_retried_witness:
  "\<exists>r w'. executeStack okWorker \<lparr>o_stackName = ''s'', o_dryRun = False, o_fromPlanId = None\<rparr>
          resumeWorld = (Inr r, w')
     \<and> ''A'' \<in> runSeed ''s'' (mkStack ''s'' [mkPlan ''A'' [], mkPlan ''B'' [''A'']]) resumeWorld
     \<and> planStatusOf ''s'' [''A'', ''B''] w' ''A'' = planStatusOf ''s'' [''A'', ''B''] resumeWorld ''A''
     \<and> ''A'' \<notin> set (executedIn resumeWorld w')
     \<and> ''B'' \<in> set (executedIn resumeWorld w')"
proof -
  let ?stack = "mkStack ''s'' [mkPlan ''A'' [], mkPlan ''B'' [''A'']]"
  let ?ids = "[''A'', ''B'']"
  let ?opts = "\<lparr>o_stackName = ''s'', o_dryRun = False, o_fromPlanId = None\<rparr>"
  have st: "loadStack ''s'' resumeWorld = Some ?stack"
    by (simp add: loadStack_def resumeWorld_def mkWorldWith_def mkStack_def)
  have ok: "statusNameOk ''s'' resumeWorld"
    by (simp add: statusNameOk_def resumeWorld_def mkWorldWith_def mkStack_def)
  have di: "distinct (map sp_planId (plans ?stack))" by (simp add: mkStack_def mkPlan_def)
  have ids: "planIdsOf ?stack = ?ids" by (simp add: planIdsOf_def mkStack_def mkPlan_def)
  have np: "''__proto__'' \<notin> set (planIdsOf ?stack)" unfolding ids by simp
  have nc: "\<not> hasCycle (getExecutionOrder (plans ?stack))"
    by (simp add: mkStack_def order_AB)
  have so: "sortedPlanIds (getExecutionOrder (plans ?stack)) = [''A'', ''B'']"
    by (simp add: mkStack_def order_AB)
  note T0 = completed_kept_failed_retried [OF st ok di np, of okWorker None, unfolded ids]
  from T0 neverRejects_okWorker nc
  obtain r w' where run: "executeStack okWorker ?opts resumeWorld = (Inr r, w')" by blast
  have ord: "executionOrder r = [''A'', ''B'']"
    using run st nc so by (auto simp: executeStack_def Let_def orderFrom_def split: prod.splits sum.splits)
  from T0 run have T: "(\<forall>p \<in> set ?ids.
              statusIs ''s'' ?ids resumeWorld p completed \<longrightarrow>
              p \<in> runSeed ''s'' ?stack resumeWorld
              \<and> p \<notin> set (executedIn resumeWorld w')
              \<and> planStatusOf ''s'' ?ids w' p = planStatusOf ''s'' ?ids resumeWorld p)
          \<and> (\<forall>T \<in> set (executionOrder r).
              (statusIs ''s'' ?ids resumeWorld T failed \<or> statusIs ''s'' ?ids resumeWorld T skipped)
              \<and> (\<forall>d \<in> set (stackDeps ?stack T).
                    d \<in> set ?ids \<and> statusIs ''s'' ?ids w' d completed) \<longrightarrow>
              T \<in> set (executedIn resumeWorld w'))"
    by blast
  have a0: "statusIs ''s'' ?ids resumeWorld ''A'' completed"
    by (simp add: statusIs_def planStatusOf_def loadStackStatus_def resumeWorld_def mkWorldWith_def
        mkStack_def entryWith_def pendingStatus_def truthyMember_def)
  have b0: "statusIs ''s'' ?ids resumeWorld ''B'' skipped"
    by (simp add: statusIs_def planStatusOf_def loadStackStatus_def resumeWorld_def mkWorldWith_def
        mkStack_def entryWith_def pendingStatus_def truthyMember_def)
  have deps: "stackDeps ?stack ''B'' = [''A'']" by (simp add: stackDeps_def mkStack_def mkPlan_def)
  from T a0 have a: "''A'' \<in> runSeed ''s'' ?stack resumeWorld" "''A'' \<notin> set (executedIn resumeWorld w')"
    "planStatusOf ''s'' ?ids w' ''A'' = planStatusOf ''s'' ?ids resumeWorld ''A''" by auto
  from a(3) a0 have a1: "statusIs ''s'' ?ids w' ''A'' completed" by (simp add: statusIs_def)
  from T b0 a1 deps ord have "''B'' \<in> set (executedIn resumeWorld w')" by auto
  with run a show ?thesis by blast
qed

theorem truncated_run_counterexample:
  "stackDeps (mkStack ''s'' [mkPlan ''A'' [], mkPlan ''B'' []]) ''A'' = []
   \<and> statusIs ''s'' [''A'', ''B'']
        (mkWorldWith (mkStack ''s'' [mkPlan ''A'' [], mkPlan ''B'' []]) [(''A'', failed)] False) ''A'' failed
   \<and> (case executeStack okWorker \<lparr>o_stackName = ''s'', o_dryRun = False, o_fromPlanId = Some ''B''\<rparr>
             (mkWorldWith (mkStack ''s'' [mkPlan ''A'' [], mkPlan ''B'' []]) [(''A'', failed)] False) of
         (Inr r, w') \<Rightarrow> executionOrder r = [''B''] \<and> executed w' = [''B'']
            \<and> statusIs ''s'' [''A'', ''B''] w' ''A'' failed
       | (Inl e, w') \<Rightarrow> False)"
  using order_A_B by (simp add: run_defs statusIs_def planStatusOf_def stackDeps_def)

section \<open>Dangling references\<close>


























end
